theory Spec2Isabelle
  imports Main
begin

section \<open>JavaScript values used by the branch-graph service\<close>

text \<open>
  A JavaScript string is modelled as a \<^typ>\<open>string\<close>, the bytes of its UTF-8
  encoding; the model is exact on ASCII text, which is what hashes, ref prefixes,
  separators and timestamps of a log are. A JavaScript number that holds a timestamp is an integer or
  \<open>NaN\<close> (what \<open>parseInt\<close> gives on a string without digits); the model is exact
  for integers below \<open>2 ^ 53\<close>, where a double holds every integer.
\<close>

datatype jsnumber = Num int | NaN

text \<open>
  \<open>Map<string, V>\<close> iterates in insertion order: an association list in that order.
  \<open>set\<close> on a key already present replaces the value and keeps the position,
  \<open>delete\<close> removes the entry.
\<close>

type_synonym 'v jsmap = "(string \<times> 'v) list"

definition mapGet :: "'v jsmap \<Rightarrow> string \<Rightarrow> 'v option" where
  "mapGet m k = map_of m k"

definition mapHas :: "'v jsmap \<Rightarrow> string \<Rightarrow> bool" where
  "mapHas m k = (map_of m k \<noteq> None)"

fun mapSet :: "'v jsmap \<Rightarrow> string \<Rightarrow> 'v \<Rightarrow> 'v jsmap" where
  "mapSet [] k v = [(k, v)]"
| "mapSet ((k', v') # m) k v =
     (if k' = k then (k, v) # m else (k', v') # mapSet m k v)"

definition mapDelete :: "'v jsmap \<Rightarrow> string \<Rightarrow> 'v jsmap" where
  "mapDelete m k = filter (\<lambda>e. fst e \<noteq> k) m"

definition mapKeys :: "'v jsmap \<Rightarrow> string list" where
  "mapKeys m = map fst m"

definition mapValues :: "'v jsmap \<Rightarrow> 'v list" where
  "mapValues m = map snd m"

definition mapSize :: "'v jsmap \<Rightarrow> nat" where
  "mapSize m = length m"

text \<open>
  \<open>Set<string>\<close> also iterates in insertion order: a list without duplicates, in
  which \<open>new Set(array)\<close> keeps the first occurrence of each element.
\<close>

type_synonym jsset = "string list"

definition setAdd :: "jsset \<Rightarrow> string \<Rightarrow> jsset" where
  "setAdd s x = (if x \<in> set s then s else s @ [x])"

definition newSet :: "string list \<Rightarrow> jsset" where
  "newSet xs = foldl setAdd [] xs"

definition setHas :: "jsset \<Rightarrow> string \<Rightarrow> bool" where
  "setHas s x = (x \<in> set s)"

definition startsWith :: "string \<Rightarrow> string \<Rightarrow> bool" where
  "startsWith s p = (take (length p) s = p)"

section \<open>Data model of \<open>git-service.ts\<close>\<close>

record CommitNodeInfo =
  hash :: string
  parents :: "string list"
  timestamp :: jsnumber
  branches :: jsset

type_synonym CommitMap = "CommitNodeInfo jsmap"

datatype MergeType = ThreeWay | FastForward

record MergeEdge =
  m_from :: string
  m_to :: string
  m_commit :: string
  m_type :: MergeType
  m_description :: "string option"
  m_timestamp :: "jsnumber option"

record DagNode =
  n_hash :: string
  n_parents :: "string list"
  n_branches :: "string list"
  n_timestamp :: jsnumber
  n_isMerge :: bool

record DagLink =
  l_source :: string
  l_target :: string

record BranchGraphDag =
  d_nodes :: "DagNode list"
  d_links :: "DagLink list"

record BranchGraphData =
  g_branches :: "string list"
  g_merges :: "MergeEdge list"
  g_currentBranch :: "string option"
  g_dag :: "BranchGraphDag option"

record BranchSummary =
  bs_all :: "string list"
  bs_current :: string

section \<open>\<open>enforceCommitLimit\<close>\<close>

definition BRANCH_GRAPH_MAX_COMMITS :: nat where
  "BRANCH_GRAPH_MAX_COMMITS = 800"

text \<open>
  The inner \<open>for (const key of commits.keys()) lastKey = key\<close>: the last key in
  insertion order, \<open>undefined\<close> on an empty map.
\<close>

definition lastKeyOf :: "'v jsmap \<Rightarrow> string option" where
  "lastKeyOf m = foldl (\<lambda>lastKey key. Some key) None (mapKeys m)"

lemma lastKeyOf_Nil: "lastKeyOf [] = None"
  by (simp add: lastKeyOf_def mapKeys_def)

lemma lastKeyOf_snoc: "lastKeyOf (m @ [(k, v)]) = Some k"
  by (simp add: lastKeyOf_def mapKeys_def)

lemma lastKeyOf_last: "m \<noteq> [] \<Longrightarrow> lastKeyOf m = Some (fst (last m))"
  by (cases m rule: rev_cases) (auto simp: lastKeyOf_snoc)

lemma mapDelete_length_less:
  "k \<in> set (mapKeys m) \<Longrightarrow> length (mapDelete m k) < length m"
proof -
  assume "k \<in> set (mapKeys m)"
  then obtain e where "e \<in> set m" "\<not> (fst e \<noteq> k)"
    by (auto simp: mapKeys_def)
  then show ?thesis
    unfolding mapDelete_def by (rule length_filter_less)
qed

text \<open>
  The \<open>while\<close> loop of \<open>enforceCommitLimit\<close>, with the limit it reads from the
  class constant as an argument. \<open>!lastKey\<close> holds for \<open>undefined\<close> and for the
  empty string; both leave the loop.
\<close>

function enforceCommitLimitAt :: "nat \<Rightarrow> 'v jsmap \<Rightarrow> 'v jsmap" where
  "enforceCommitLimitAt limit commits =
     (if mapSize commits > limit then
        (case lastKeyOf commits of
           None \<Rightarrow> commits
         | Some lastKey \<Rightarrow>
             if lastKey = [] then commits
             else enforceCommitLimitAt limit (mapDelete commits lastKey))
      else commits)"
  by pat_completeness auto
termination
proof (relation "measure (\<lambda>(limit, commits). length commits)")
  show "wf (measure (\<lambda>(limit, commits). length commits))" by simp
next
  fix limit :: nat and commits :: "'v jsmap" and lastKey
  assume "limit < mapSize commits" and lk: "lastKeyOf commits = Some lastKey"
  then have "commits \<noteq> []" by (auto simp: mapSize_def)
  with lk have "lastKey = fst (last commits)" by (simp add: lastKeyOf_last)
  with \<open>commits \<noteq> []\<close> have "lastKey \<in> set (mapKeys commits)"
    by (simp add: mapKeys_def)
  then show "((limit, mapDelete commits lastKey), (limit, commits))
      \<in> measure (\<lambda>(limit, commits). length commits)"
    by (simp add: mapDelete_length_less)
qed

declare enforceCommitLimitAt.simps [simp del]

definition enforceCommitLimit :: "'v jsmap \<Rightarrow> 'v jsmap" where
  "enforceCommitLimit commits = enforceCommitLimitAt BRANCH_GRAPH_MAX_COMMITS commits"

section \<open>\<open>buildBranchGraphFromCommitMap\<close>\<close>

text \<open>
  The text of the template literal that describes an inferred merge; the two fixed
  pieces are the bytes of the source's (non-ASCII) label and arrow.
\<close>

definition threeWayLabel :: string where
  "threeWayLabel = [CHR 0xE4, CHR 0xB8, CHR 0x89, CHR 0xE8, CHR 0xB7, CHR 0xAF,
     CHR 0xE5, CHR 0x90, CHR 0x88, CHR 0xE5, CHR 0xB9, CHR 0xB6, CHR 0xEF, CHR 0xBC, CHR 0x9A]"

definition threeWayArrow :: string where
  "threeWayArrow = [CHR '' '', CHR 0xE2, CHR 0x86, CHR 0x92, CHR '' '']"

definition threeWayDescription :: "string \<Rightarrow> string \<Rightarrow> string" where
  "threeWayDescription fromBranch toBranch =
     threeWayLabel @ fromBranch @ threeWayArrow @ toBranch"

text \<open>The two \<open>filter\<close> calls on the branch sets of a merge commit and its parents.\<close>

definition toBranchCandidates ::
  "CommitNodeInfo \<Rightarrow> CommitNodeInfo \<Rightarrow> CommitNodeInfo \<Rightarrow> string list" where
  "toBranchCandidates commitNode firstParentNode secondParentNode =
     filter (\<lambda>branch. setHas (branches firstParentNode) branch
                     \<and> \<not> setHas (branches secondParentNode) branch)
            (branches commitNode)"

definition fromBranchCandidates ::
  "CommitNodeInfo \<Rightarrow> CommitNodeInfo \<Rightarrow> CommitNodeInfo \<Rightarrow> string list" where
  "fromBranchCandidates commitNode firstParentNode secondParentNode =
     filter (\<lambda>branch.
               if setHas (branches firstParentNode) branch
               then setHas (branches commitNode) branch
                    \<and> branch \<notin> set
                          (toBranchCandidates commitNode firstParentNode secondParentNode)
               else True)
            (branches secondParentNode)"

definition samePair :: "string \<Rightarrow> string \<Rightarrow> MergeEdge \<Rightarrow> bool" where
  "samePair fromBranch toBranch m = (m_from m = fromBranch \<and> m_to m = toBranch)"

text \<open>
  The body of \<open>for (const [commitHash, commitNode] of commits.entries())\<close>; it
  returns the \<open>merges\<close> array after the iteration. \<open>continue\<close> and every
  failed \<open>if\<close> return it unchanged.
\<close>

definition mergeLoopBody ::
  "CommitMap \<Rightarrow> string \<Rightarrow> MergeEdge list \<Rightarrow> string \<times> CommitNodeInfo \<Rightarrow> MergeEdge list" where
  "mergeLoopBody commits currentBranch merges entry =
     (let commitHash = fst entry; commitNode = snd entry in
      if length (parents commitNode) \<ge> 2 then
        (case mapGet commits (parents commitNode ! 0) of
           None \<Rightarrow> merges
         | Some firstParentNode \<Rightarrow>
        (case mapGet commits (parents commitNode ! 1) of
           None \<Rightarrow> merges
         | Some secondParentNode \<Rightarrow>
            (let toCands = toBranchCandidates commitNode firstParentNode secondParentNode;
                 fromCands = fromBranchCandidates commitNode firstParentNode secondParentNode
             in if length toCands > 0 \<and> length fromCands > 0 then
                  (let toBranch = (if currentBranch \<in> set toCands
                                   then currentBranch else toCands ! 0);
                       fromBranch = fromCands ! 0
                   in if fromBranch \<noteq> toBranch then
                        (if \<not> list_ex (samePair fromBranch toBranch) merges then
                           merges @ [\<lparr> m_from = fromBranch, m_to = toBranch,
                                       m_commit = commitHash, m_type = ThreeWay,
                                       m_description =
                                         Some (threeWayDescription fromBranch toBranch),
                                       m_timestamp = Some (timestamp commitNode) \<rparr>]
                         else merges)
                      else merges)
                else merges)))
      else merges)"

definition mergeLoop :: "CommitMap \<Rightarrow> string \<Rightarrow> MergeEdge list" where
  "mergeLoop commits currentBranch = foldl (mergeLoopBody commits currentBranch) [] commits"

text \<open>
  The loop over \<open>MergeHistory.getHistory()\<close>. The module is not part of the
  sources at hand: its result is an argument, \<open>None\<close> when the call throws (the
  \<open>catch\<close> then keeps the merges inferred so far).
\<close>

definition historyLoopBody :: "string list \<Rightarrow> MergeEdge list \<Rightarrow> MergeEdge \<Rightarrow> MergeEdge list" where
  "historyLoopBody allBranches merges item =
     (if m_type item \<noteq> ThreeWay then merges
      else if m_from item \<notin> set allBranches \<or> m_to item \<notin> set allBranches
      then merges
      else if \<not> list_ex (samePair (m_from item) (m_to item)) merges then merges @ [item]
      else merges)"

definition localBranches :: "BranchSummary \<Rightarrow> string list" where
  "localBranches branchSummary =
     filter (\<lambda>b. \<not> startsWith b ''remotes/'') (bs_all branchSummary)"

definition dagNodeOf :: "CommitNodeInfo \<Rightarrow> DagNode" where
  "dagNodeOf commit =
     \<lparr> n_hash = hash commit, n_parents = parents commit, n_branches = branches commit,
       n_timestamp = timestamp commit, n_isMerge = (length (parents commit) \<ge> 2) \<rparr>"

definition dagLinksOf :: "CommitMap \<Rightarrow> DagLink list" where
  "dagLinksOf commits =
     concat (map (\<lambda>entry. map (\<lambda>parent. \<lparr> l_source = parent, l_target = fst entry \<rparr>)
                              (parents (snd entry))) commits)"

definition buildBranchGraphFromCommitMap ::
  "CommitMap \<Rightarrow> BranchSummary \<Rightarrow> MergeEdge list option \<Rightarrow> BranchGraphData" where
  "buildBranchGraphFromCommitMap commits branchSummary recorded =
     (let allBranches = localBranches branchSummary;
          currentBranch = (if bs_current branchSummary = [] then ''main''
                           else bs_current branchSummary);
          merges = mergeLoop commits currentBranch;
          merges' = (case recorded of
                       None \<Rightarrow> merges
                     | Some items \<Rightarrow> foldl (historyLoopBody allBranches) merges items);
          threeWayMerges = filter (\<lambda>m. m_type m = ThreeWay) merges'
      in \<lparr> g_branches = allBranches, g_merges = threeWayMerges,
           g_currentBranch = Some currentBranch,
           g_dag = Some \<lparr> d_nodes = map dagNodeOf (mapValues commits),
                          d_links = dagLinksOf commits \<rparr> \<rparr>)"

section \<open>\<open>parseGitLogToCommitMap\<close>\<close>

text \<open>
  String operations of the parser. White space is the ASCII part of what
  \<open>String.prototype.trim\<close> and the regular expression \<open>\s\<close> accept: tab, line feed,
  vertical tab, form feed, carriage return and space.
\<close>

definition isSpace :: "char \<Rightarrow> bool" where
  "isSpace c = (c \<in> set [CHR 0x09, CHR 0x0A, CHR 0x0B, CHR 0x0C, CHR 0x0D, CHR 0x20])"

definition trim :: "string \<Rightarrow> string" where
  "trim s = rev (dropWhile isSpace (rev (dropWhile isSpace s)))"

text \<open>\<open>s.split(sep)\<close> for a separator of one character; \<open>''.split(sep)\<close> is \<open>['']\<close>.\<close>

fun splitOn :: "char \<Rightarrow> string \<Rightarrow> string list" where
  "splitOn sep [] = [[]]"
| "splitOn sep (c # cs) =
     (if c = sep then [] # splitOn sep cs
      else (case splitOn sep cs of
              [] \<Rightarrow> [[c]]
            | w # ws \<Rightarrow> (c # w) # ws))"

text \<open>\<open>s.split(/\s+/)\<close>: the pieces between maximal runs of white space.\<close>

function splitSpaces :: "string \<Rightarrow> string list" where
  "splitSpaces [] = [[]]"
| "splitSpaces (c # cs) =
     (if isSpace c then [] # splitSpaces (dropWhile isSpace cs)
      else (case splitSpaces cs of
              [] \<Rightarrow> [[c]]
            | w # ws \<Rightarrow> (c # w) # ws))"
  by pat_completeness auto
termination
proof (relation "measure length")
  show "wf (measure length)" by simp
next
  fix c :: char and cs :: string
  have "length (dropWhile isSpace cs) \<le> length cs" by (rule length_dropWhile_le)
  then show "(dropWhile isSpace cs, c # cs) \<in> measure length" by simp
next
  fix c :: char and cs :: string
  show "(cs, c # cs) \<in> measure length" by simp
qed

text \<open>\<open>s.replace(pat, rep)\<close> with a string pattern: the first occurrence only.\<close>

fun replaceFirst :: "string \<Rightarrow> string \<Rightarrow> string \<Rightarrow> string" where
  "replaceFirst pat rep [] = (if pat = [] then rep else [])"
| "replaceFirst pat rep (c # cs) =
     (if startsWith (c # cs) pat then rep @ drop (length pat) (c # cs)
      else c # replaceFirst pat rep cs)"

text \<open>
  \<open>parseInt(s, 10)\<close>: leading white space, an optional sign, then the longest prefix
  of decimal digits; \<open>NaN\<close> when there is no digit.
\<close>

definition isDigit :: "char \<Rightarrow> bool" where
  "isDigit c = (48 \<le> (of_char c :: nat) \<and> (of_char c :: nat) \<le> 57)"

definition digitValue :: "char \<Rightarrow> int" where
  "digitValue c = int (of_char c) - 48"

definition digitsToInt :: "string \<Rightarrow> int" where
  "digitsToInt ds = foldl (\<lambda>acc d. 10 * acc + digitValue d) 0 ds"

definition parseInt10 :: "string \<Rightarrow> jsnumber" where
  "parseInt10 s =
     (let t = dropWhile isSpace s;
          negative = (t \<noteq> [] \<and> hd t = CHR ''-'');
          u = (if t \<noteq> [] \<and> (hd t = CHR ''-'' \<or> hd t = CHR ''+'') then tl t else t);
          ds = takeWhile isDigit u
      in if ds = [] then NaN
         else Num (if negative then - digitsToInt ds else digitsToInt ds))"

definition jsTimes :: "jsnumber \<Rightarrow> int \<Rightarrow> jsnumber" where
  "jsTimes a k = (case a of NaN \<Rightarrow> NaN | Num i \<Rightarrow> Num (i * k))"

text \<open>
  What the code can throw. Reading \<open>parts[i]\<close> beyond the array gives
  \<open>undefined\<close>, and calling \<open>trim\<close> on it throws a \<open>TypeError\<close>; a call to git
  can be rejected, and \<open>ensureGit\<close> throws when no repository can be opened.
\<close>

datatype error = TypeError | GitError | InitError

definition trimAt :: "string list \<Rightarrow> nat \<Rightarrow> error + string" where
  "trimAt parts i = (if i < length parts then Inr (trim (parts ! i)) else Inl TypeError)"

text \<open>
  The body of the \<open>for (const line of logLines)\<close> loop: \<open>Inr None\<close> is
  \<open>continue\<close>, \<open>Inr (Some node)\<close> is the record handed to \<open>commits.set\<close>.
  \<open>dateNow\<close> is the value \<open>Date.now()\<close> returns in this iteration.
\<close>

definition parseLine :: "int \<Rightarrow> string \<Rightarrow> error + CommitNodeInfo option" where
  "parseLine dateNow line =
     (let parts = splitOn (CHR 0x00) line in
      if length parts < 4 then Inr None
      else
        (case trimAt parts 0 of Inl e \<Rightarrow> Inl e | Inr hashStr \<Rightarrow>
         if hashStr = [] then Inr None
         else
        (case trimAt parts 1 of Inl e \<Rightarrow> Inl e | Inr parentStr \<Rightarrow>
        (case trimAt parts 2 of Inl e \<Rightarrow> Inl e | Inr refStr \<Rightarrow>
        (case trimAt parts 3 of Inl e \<Rightarrow> Inl e | Inr timestampStr \<Rightarrow>
           (let parentList = (if parentStr \<noteq> []
                              then filter (\<lambda>p. trim p \<noteq> []) (splitSpaces parentStr)
                              else []);
                refs = (if refStr \<noteq> []
                        then filter (\<lambda>r. r \<noteq> []) (map trim (splitOn (CHR '','') refStr))
                        else []);
                branchNames = map (\<lambda>r. replaceFirst ''refs/heads/'' [] r)
                                  (filter (\<lambda>r. startsWith r ''refs/heads/'') refs);
                ts = (if timestampStr \<noteq> [] then jsTimes (parseInt10 timestampStr) 1000
                      else Num dateNow)
            in Inr (Some \<lparr> hash = hashStr, parents = parentList, timestamp = ts,
                             branches = newSet branchNames \<rparr>)))))))"

text \<open>
  The loop itself; \<open>clock k\<close> is what \<open>Date.now()\<close> returns while the line of
  index \<open>k\<close> is processed.
\<close>

fun parseLines :: "(nat \<Rightarrow> int) \<Rightarrow> nat \<Rightarrow> string list \<Rightarrow> CommitMap \<Rightarrow> error + CommitMap" where
  "parseLines clock k [] commits = Inr commits"
| "parseLines clock k (line # rest) commits =
     (case parseLine (clock k) line of
        Inl e \<Rightarrow> Inl e
      | Inr None \<Rightarrow> parseLines clock (Suc k) rest commits
      | Inr (Some node) \<Rightarrow> parseLines clock (Suc k) rest (mapSet commits (hash node) node))"

definition parseGitLogToCommitMap :: "(nat \<Rightarrow> int) \<Rightarrow> string \<Rightarrow> error + CommitMap" where
  "parseGitLogToCommitMap clock logOutput =
     (if logOutput = [] \<or> trim logOutput = [] then Inr []
      else parseLines clock 0
             (filter (\<lambda>line. trim line \<noteq> []) (splitOn (CHR 0x0A) (trim logOutput))) [])"

section \<open>Building and caching the branch graph\<close>

text \<open>
  The collaborators of the service, as the values their calls produce. A rejected
  promise is \<open>Inl\<close>. \<open>logAll\<close> is \<open>git log --all --max-count=800 ...\<close>,
  \<open>logRange base head\<close> is \<open>git log base..head ...\<close>, \<open>mergeBaseIsAncestor\<close> is
  \<open>git merge-base --is-ancestor\<close>, \<open>branchQuery\<close> is \<open>git.branch()\<close> and
  \<open>revparseHead\<close> is \<open>git.revparse(['HEAD'])\<close>. Each call is taken to give the
  same outcome whenever it is repeated during one \<open>getBranchGraph\<close>.
\<close>

record GitEnv =
  revparseHead :: "error + string"
  logAll :: "error + string"
  logRange :: "string \<Rightarrow> string \<Rightarrow> error + string"
  mergeBaseIsAncestor :: "string \<Rightarrow> string \<Rightarrow> error + unit"
  branchQuery :: "error + BranchSummary"

text \<open>
  The workspace storage of one repository: the snapshots under
  \<open>branchGraph:<repoId>:<headHash>\<close>, keyed here by the head hash, and the array
  under \<open>branchGraphIndex:<repoId>\<close>. Writes to it are taken to succeed.
\<close>

record Storage =
  st_graphs :: "BranchGraphData jsmap"
  st_index :: "string list"

definition emptyGraph :: BranchGraphData where
  "emptyGraph = \<lparr> g_branches = [], g_merges = [], g_currentBranch = None,
                  g_dag = Some \<lparr> d_nodes = [], d_links = [] \<rparr> \<rparr>"

text \<open>
  \<open>buildFullBranchGraph\<close>: the whole body is inside \<open>try\<close>, and the \<open>catch\<close>
  returns the empty graph.
\<close>

definition buildFullBranchGraph ::
  "GitEnv \<Rightarrow> (nat \<Rightarrow> int) \<Rightarrow> MergeEdge list option \<Rightarrow> BranchGraphData" where
  "buildFullBranchGraph git clock recorded =
     (case logAll git of
        Inl e \<Rightarrow> emptyGraph
      | Inr logOutput \<Rightarrow>
     (case parseGitLogToCommitMap clock logOutput of
        Inl e \<Rightarrow> emptyGraph
      | Inr parsed \<Rightarrow>
     (let commits = enforceCommitLimit parsed in
      case branchQuery git of
        Inl e \<Rightarrow> emptyGraph
      | Inr branchSummary \<Rightarrow>
          if mapSize commits = 0 then
            \<lparr> g_branches = localBranches branchSummary, g_merges = [],
              g_currentBranch = (if bs_current branchSummary = [] then None
                                 else Some (bs_current branchSummary)),
              g_dag = Some \<lparr> d_nodes = [], d_links = [] \<rparr> \<rparr>
          else buildBranchGraphFromCommitMap commits branchSummary recorded)))"

text \<open>
  The merge of the new commits with the nodes of the cached snapshot: the new commits
  are stored first, then each cached node whose hash is not yet a key.
\<close>

definition commitOfNode :: "DagNode \<Rightarrow> CommitNodeInfo" where
  "commitOfNode node =
     \<lparr> hash = n_hash node, parents = n_parents node, timestamp = n_timestamp node,
       branches = newSet (n_branches node) \<rparr>"

definition combineCommits :: "CommitMap \<Rightarrow> DagNode list \<Rightarrow> CommitMap" where
  "combineCommits newCommits nodes =
     foldl (\<lambda>combined node.
              if mapHas combined (n_hash node) then combined
              else mapSet combined (n_hash node) (commitOfNode node))
           (foldl (\<lambda>combined entry. mapSet combined (fst entry) (snd entry)) [] newCommits)
           nodes"

text \<open>
  \<open>buildBranchGraphIncrementally\<close>: \<open>Inr None\<close> is the \<open>null\<close> it returns. Only
  the log fetch is inside \<open>try\<close>; a rejected \<open>git.branch()\<close> leaves the function
  as an exception.
\<close>

definition buildBranchGraphIncrementally ::
  "GitEnv \<Rightarrow> (nat \<Rightarrow> int) \<Rightarrow> MergeEdge list option \<Rightarrow> BranchGraphData \<Rightarrow> string \<Rightarrow> string
     \<Rightarrow> error + BranchGraphData option" where
  "buildBranchGraphIncrementally git clock recorded baseGraph baseHash headHash =
     (case g_dag baseGraph of
        None \<Rightarrow> Inr None
      | Some dag \<Rightarrow>
     (case logRange git baseHash headHash of
        Inl e \<Rightarrow> Inr None
      | Inr logOutput \<Rightarrow>
     (case branchQuery git of
        Inl e \<Rightarrow> Inl e
      | Inr branchSummary \<Rightarrow>
     (case parseGitLogToCommitMap clock logOutput of
        Inl e \<Rightarrow> Inl e
      | Inr newCommits \<Rightarrow>
         (let combinedCommits = combineCommits newCommits (d_nodes dag) in
          if mapSize combinedCommits = 0 then
            Inr (Some (baseGraph \<lparr> g_branches := localBranches branchSummary,
                                    g_currentBranch :=
                                      (if bs_current branchSummary = []
                                       then g_currentBranch baseGraph
                                       else Some (bs_current branchSummary)) \<rparr>))
          else Inr (Some (buildBranchGraphFromCommitMap
                            (enforceCommitLimit combinedCommits) branchSummary recorded)))))))"

definition isAncestor :: "GitEnv \<Rightarrow> string \<Rightarrow> string \<Rightarrow> bool" where
  "isAncestor git ancestor descendant =
     (if ancestor = [] \<or> descendant = [] then False
      else (case mergeBaseIsAncestor git ancestor descendant of
              Inl e \<Rightarrow> False
            | Inr u \<Rightarrow> True))"

definition loadBranchGraphFromStorage :: "Storage option \<Rightarrow> string \<Rightarrow> BranchGraphData option" where
  "loadBranchGraphFromStorage storage headHash =
     (case storage of
        None \<Rightarrow> None
      | Some st \<Rightarrow> if headHash = [] then None else mapGet (st_graphs st) headHash)"

definition saveBranchGraphToStorage ::
  "Storage option \<Rightarrow> string \<Rightarrow> BranchGraphData \<Rightarrow> Storage option" where
  "saveBranchGraphToStorage storage headHash data =
     (case storage of
        None \<Rightarrow> None
      | Some st \<Rightarrow>
          if headHash = [] then Some st
          else Some \<lparr> st_graphs = mapSet (st_graphs st) headHash data,
                      st_index = (if headHash \<in> set (st_index st) then st_index st
                                  else st_index st @ [headHash]) \<rparr>)"

text \<open>
  The loop of \<open>tryBuildIncrementalBranchGraph\<close> over the stored head hashes, given
  here from the last stored one to the first.
\<close>

fun tryCandidates ::
  "GitEnv \<Rightarrow> (nat \<Rightarrow> int) \<Rightarrow> MergeEdge list option \<Rightarrow> Storage option \<Rightarrow> string \<Rightarrow> string list
     \<Rightarrow> error + BranchGraphData option" where
  "tryCandidates git clock recorded storage headHash [] = Inr None"
| "tryCandidates git clock recorded storage headHash (candidate # rest) =
     (if candidate = [] \<or> candidate = headHash
      then tryCandidates git clock recorded storage headHash rest
      else (case loadBranchGraphFromStorage storage candidate of
              None \<Rightarrow> tryCandidates git clock recorded storage headHash rest
            | Some baseGraph \<Rightarrow>
                if g_dag baseGraph = None
                then tryCandidates git clock recorded storage headHash rest
                else if \<not> isAncestor git candidate headHash
                then tryCandidates git clock recorded storage headHash rest
                else (case buildBranchGraphIncrementally git clock recorded baseGraph
                             candidate headHash of
                        Inl e \<Rightarrow> Inl e
                      | Inr None \<Rightarrow> tryCandidates git clock recorded storage headHash rest
                      | Inr (Some incremental) \<Rightarrow> Inr (Some incremental))))"

definition tryBuildIncrementalBranchGraph ::
  "GitEnv \<Rightarrow> (nat \<Rightarrow> int) \<Rightarrow> MergeEdge list option \<Rightarrow> Storage option \<Rightarrow> string
     \<Rightarrow> error + BranchGraphData option" where
  "tryBuildIncrementalBranchGraph git clock recorded storage headHash =
     (case storage of
        None \<Rightarrow> Inr None
      | Some st \<Rightarrow>
          if st_index st = [] then Inr None
          else tryCandidates git clock recorded storage headHash (rev (st_index st)))"

text \<open>
  \<open>getBranchGraph\<close>. \<open>cached\<close> is what \<open>getCached\<close> finds in memory, \<open>gitOpt\<close>
  is \<open>None\<close> when \<open>ensureGit\<close> throws. The result is the graph returned together
  with the storage after the call.
\<close>

definition getBranchGraph ::
  "bool \<Rightarrow> BranchGraphData option \<Rightarrow> GitEnv option \<Rightarrow> Storage option \<Rightarrow> (nat \<Rightarrow> int)
     \<Rightarrow> MergeEdge list option \<Rightarrow> error + (BranchGraphData \<times> Storage option)" where
  "getBranchGraph forceRefresh cached gitOpt storage clock recorded =
     (if \<not> forceRefresh \<and> cached \<noteq> None then Inr (the cached, storage)
      else
     (case gitOpt of
        None \<Rightarrow> Inl InitError
      | Some git \<Rightarrow>
     (let headHash = (case revparseHead git of Inl e \<Rightarrow> [] | Inr h \<Rightarrow> trim h);
          persisted = (if \<not> forceRefresh \<and> headHash \<noteq> []
                       then loadBranchGraphFromStorage storage headHash else None)
      in case persisted of
           Some graph \<Rightarrow> Inr (graph, storage)
         | None \<Rightarrow>
     (case (if \<not> forceRefresh \<and> headHash \<noteq> []
            then tryBuildIncrementalBranchGraph git clock recorded storage headHash
            else Inr None) of
        Inl e \<Rightarrow> Inl e
      | Inr (Some incrementalGraph) \<Rightarrow>
          Inr (incrementalGraph, saveBranchGraphToStorage storage headHash incrementalGraph)
      | Inr None \<Rightarrow>
          (let fullGraph = buildFullBranchGraph git clock recorded
           in Inr (fullGraph, if headHash \<noteq> []
                              then saveBranchGraphToStorage storage headHash fullGraph
                              else storage))))))"

section \<open>The graph layout of the commit table\<close>

text \<open>
  The classes \<open>Branch\<close> and \<open>Vertex\<close> of the graph view. Objects that the code
  compares by identity are named by indices: a vertex of the array \<open>vertices\<close> by its
  row (\<open>V i\<close>, which is also its \<open>id\<close>), the shared \<open>nullVertex\<close> of id \<open>-1\<close> by
  \<open>NullVertex\<close>, and a \<open>Branch\<close> object by its position in the list of all branch
  objects created so far.
\<close>

datatype vref = NullVertex | V nat

record Point =
  p_x :: nat
  p_y :: nat

record Line =
  ln_p1 :: Point
  ln_p2 :: Point
  ln_isCommitted :: bool
  ln_lockedFirst :: bool

record Branch =
  b_colorIndex :: nat
  b_end :: nat
  b_lines :: "Line list"

record UnavailablePoint =
  u_connectsTo :: "vref option"
  u_onBranch :: nat

text \<open>\<open>v_connections\<close> is a sparse array: \<open>None\<close> is a hole.\<close>

record Vertex =
  v_id :: nat
  v_x :: nat
  v_children :: "vref list"
  v_parents :: "vref list"
  v_nextParent :: nat
  v_onBranch :: "nat option"
  v_isCommitted :: bool
  v_isCurrent :: bool
  v_nextX :: nat
  v_connections :: "UnavailablePoint option list"

definition newVertex :: "nat \<Rightarrow> Vertex" where
  "newVertex i = \<lparr> v_id = i, v_x = 0, v_children = [], v_parents = [], v_nextParent = 0,
                   v_onBranch = None, v_isCommitted = True, v_isCurrent = False,
                   v_nextX = 0, v_connections = [] \<rparr>"

definition newBranch :: "nat \<Rightarrow> Branch" where
  "newBranch colorIndex = \<lparr> b_colorIndex = colorIndex, b_end = 0, b_lines = [] \<rparr>"

definition getNextParent :: "Vertex \<Rightarrow> vref option" where
  "getNextParent v =
     (if v_nextParent v < length (v_parents v) then Some (v_parents v ! v_nextParent v)
      else None)"

definition registerParentProcessed :: "Vertex \<Rightarrow> Vertex" where
  "registerParentProcessed v = v \<lparr> v_nextParent := v_nextParent v + 1 \<rparr>"

definition isMerge :: "Vertex \<Rightarrow> bool" where
  "isMerge v = (length (v_parents v) > 1)"

definition addToBranch :: "Vertex \<Rightarrow> nat \<Rightarrow> nat \<Rightarrow> Vertex" where
  "addToBranch v branch x =
     (if v_onBranch v = None then v \<lparr> v_onBranch := Some branch, v_x := x \<rparr> else v)"

definition isNotOnBranch :: "Vertex \<Rightarrow> bool" where
  "isNotOnBranch v = (v_onBranch v = None)"

definition getPoint :: "Vertex \<Rightarrow> Point" where
  "getPoint v = \<lparr> p_x = v_x v, p_y = v_id v \<rparr>"

definition getNextPoint :: "Vertex \<Rightarrow> Point" where
  "getNextPoint v = \<lparr> p_x = v_nextX v, p_y = v_id v \<rparr>"

text \<open>The index of the first connection to the given vertex on the given branch.\<close>

fun firstConnection ::
  "UnavailablePoint option list \<Rightarrow> vref option \<Rightarrow> nat \<Rightarrow> nat \<Rightarrow> nat option" where
  "firstConnection [] vertex onBranch i = None"
| "firstConnection (conn # rest) vertex onBranch i =
     (case conn of
        Some c \<Rightarrow>
          if u_connectsTo c = vertex \<and> u_onBranch c = onBranch then Some i
          else firstConnection rest vertex onBranch (i + 1)
      | None \<Rightarrow> firstConnection rest vertex onBranch (i + 1))"

definition getPointConnectingTo :: "Vertex \<Rightarrow> vref option \<Rightarrow> nat \<Rightarrow> Point option" where
  "getPointConnectingTo v vertex onBranch =
     (case firstConnection (v_connections v) vertex onBranch 0 of
        None \<Rightarrow> None
      | Some i \<Rightarrow> Some \<lparr> p_x = i, p_y = v_id v \<rparr>)"

text \<open>
  \<open>connections.length = x + 1\<close> on a shorter array pads it with holes; the assignment
  to \<open>connections[x]\<close> then stores the point.
\<close>

definition registerUnavailablePoint :: "Vertex \<Rightarrow> nat \<Rightarrow> vref option \<Rightarrow> nat \<Rightarrow> Vertex" where
  "registerUnavailablePoint v x connectsToVertex onBranch =
     (if x = v_nextX v then
        v \<lparr> v_nextX := x + 1,
            v_connections :=
              (v_connections v @ replicate (x + 1 - length (v_connections v)) None)
                [x := Some \<lparr> u_connectsTo = connectsToVertex, u_onBranch = onBranch \<rparr>] \<rparr>
      else v)"

text \<open>
  \<open>getAvailableColour\<close> returns the colour and leaves the array one slot longer when
  no slot can be reused.
\<close>

fun firstSlot :: "nat \<Rightarrow> nat list \<Rightarrow> nat option" where
  "firstSlot startAt [] = None"
| "firstSlot startAt (c # cs) =
     (if startAt > c then Some 0 else map_option Suc (firstSlot startAt cs))"

definition getAvailableColour :: "nat \<Rightarrow> nat list \<Rightarrow> nat \<times> nat list" where
  "getAvailableColour startAt availableColors =
     (case firstSlot startAt availableColors of
        Some i \<Rightarrow> (i, availableColors)
      | None \<Rightarrow> (length availableColors, availableColors @ [0]))"

text \<open>
  The state of one run of \<open>buildGraphData\<close>: the array \<open>vertices\<close>, every
  \<open>Branch\<close> object created (\<open>branchHeap\<close>), the array \<open>branches\<close> of the objects
  pushed (\<open>graphBranches\<close>) and \<open>availableColors\<close>.
\<close>

record Layout =
  vertices :: "Vertex list"
  branchHeap :: "Branch list"
  graphBranches :: "nat list"
  availableColors :: "nat list"

definition updVertex :: "nat \<Rightarrow> (Vertex \<Rightarrow> Vertex) \<Rightarrow> Layout \<Rightarrow> Layout" where
  "updVertex i f st = st \<lparr> vertices := (vertices st)[i := f (vertices st ! i)] \<rparr>"

definition addLine :: "nat \<Rightarrow> Point \<Rightarrow> Point \<Rightarrow> bool \<Rightarrow> bool \<Rightarrow> Layout \<Rightarrow> Layout" where
  "addLine branch p1 p2 isCommitted lockedFirst st =
     st \<lparr> branchHeap := (branchHeap st)
            [branch := (branchHeap st ! branch)
               \<lparr> b_lines := b_lines (branchHeap st ! branch)
                    @ [\<lparr> ln_p1 = p1, ln_p2 = p2, ln_isCommitted = isCommitted,
                          ln_lockedFirst = lockedFirst \<rparr>] \<rparr>] \<rparr>"

definition setEnd :: "nat \<Rightarrow> nat \<Rightarrow> Layout \<Rightarrow> Layout" where
  "setEnd branch e st =
     st \<lparr> branchHeap := (branchHeap st)[branch := (branchHeap st ! branch) \<lparr> b_end := e \<rparr>] \<rparr>"

text \<open>
  The \<open>for\<close> loop of the merge case of \<open>determinePath\<close>, from row \<open>i\<close> on.
  \<open>n\<close> is \<open>vertices.length\<close>, which no step changes; \<open>vertex\<close> and \<open>parent\<close>
  are the rows of \<open>vertex\<close> and \<open>parentVertex\<close>.
\<close>

function mergeScan :: "nat \<Rightarrow> nat \<Rightarrow> nat \<Rightarrow> nat \<Rightarrow> nat \<Rightarrow> Point \<Rightarrow> Layout \<Rightarrow> Layout" where
  "mergeScan n i vertex parent parentBranch lastPoint st =
     (if i < n then
        (let curVertex = vertices st ! i;
             existingPoint = getPointConnectingTo curVertex (Some (V parent)) parentBranch;
             foundPointToParent = (existingPoint \<noteq> None \<or> i = parent);
             curPoint = (case existingPoint of
                           Some pt \<Rightarrow> pt
                         | None \<Rightarrow> if i = parent then getPoint curVertex
                                   else getNextPoint curVertex);
             lockedFirst = (if \<not> foundPointToParent \<and> i \<noteq> parent
                            then p_x lastPoint < p_x curPoint else True);
             st1 = addLine parentBranch lastPoint curPoint
                     (v_isCommitted (vertices st ! vertex)) lockedFirst st;
             st2 = updVertex i (\<lambda>v. registerUnavailablePoint v (p_x curPoint)
                                       (Some (V parent)) parentBranch) st1
         in if foundPointToParent then updVertex vertex registerParentProcessed st2
            else mergeScan n (i + 1) vertex parent parentBranch curPoint st2)
      else st)"
  by pat_completeness auto
termination
  by (relation "measure (\<lambda>(n, i, vertex, parent, parentBranch, lastPoint, st). n - i)") auto

declare mergeScan.simps [simp del]

text \<open>
  The \<open>for\<close> loop of the normal case. It returns the value of \<open>i\<close> after the loop
  (the row of the \<open>break\<close>, or \<open>n\<close>), the rows of \<open>vertex\<close> and \<open>parentVertex\<close>
  as they are then, and the state.
\<close>

function normalScan ::
  "nat \<Rightarrow> nat \<Rightarrow> nat \<Rightarrow> vref option \<Rightarrow> nat \<Rightarrow> Point \<Rightarrow> Layout
     \<Rightarrow> nat \<times> nat \<times> vref option \<times> Layout" where
  "normalScan n i vertex parentVertex branch lastPoint st =
     (if i < n then
        (let curVertex = vertices st ! i;
             curPoint = (if parentVertex = Some (V i) \<and> \<not> isNotOnBranch curVertex
                         then getPoint curVertex else getNextPoint curVertex);
             lockedFirst = (p_x lastPoint < p_x curPoint);
             st1 = addLine branch lastPoint curPoint
                     (v_isCommitted (vertices st ! vertex)) lockedFirst st;
             st2 = updVertex i (\<lambda>v. registerUnavailablePoint v (p_x curPoint)
                                       parentVertex branch) st1
         in if parentVertex = Some (V i) then
              (let st3 = updVertex vertex registerParentProcessed st2;
                   parentVertexOnBranch = \<not> isNotOnBranch (vertices st3 ! i);
                   st4 = updVertex i (\<lambda>v. addToBranch v branch (p_x curPoint)) st3;
                   parentVertex' = getNextParent (vertices st4 ! i)
               in if parentVertex' = None \<or> parentVertexOnBranch
                  then (i, i, parentVertex', st4)
                  else normalScan n (i + 1) i parentVertex' branch curPoint st4)
            else normalScan n (i + 1) vertex parentVertex branch curPoint st2)
      else (i, vertex, parentVertex, st))"
  by pat_completeness auto
termination
  by (relation "measure (\<lambda>(n, i, vertex, parentVertex, branch, lastPoint, st). n - i)") auto

declare normalScan.simps [simp del]

text \<open>
  \<open>determinePath\<close>. \<open>mergeParent\<close> is the condition of its \<open>if\<close>: it gives the
  row of \<open>parentVertex\<close> when that is a vertex of the array, \<open>vertex\<close> is a merge
  and both are on a branch. \<open>mergePath\<close> is the first arm of the \<open>if\<close>,
  \<open>normalPath\<close> the second.
\<close>

definition lastPointOf :: "Vertex \<Rightarrow> Point" where
  "lastPointOf vertex = (if isNotOnBranch vertex then getNextPoint vertex else getPoint vertex)"

definition mergeParent :: "Layout \<Rightarrow> nat \<Rightarrow> nat option" where
  "mergeParent st startAt =
     (let vertex = vertices st ! startAt in
      case getNextParent vertex of
        Some (V parent) \<Rightarrow>
          if isMerge vertex \<and> \<not> isNotOnBranch vertex
             \<and> \<not> isNotOnBranch (vertices st ! parent)
          then Some parent else None
      | _ \<Rightarrow> None)"

definition mergePath :: "nat \<Rightarrow> nat \<Rightarrow> Layout \<Rightarrow> Layout" where
  "mergePath startAt parent st =
     mergeScan (length (vertices st)) (startAt + 1) startAt parent
       (the (v_onBranch (vertices st ! parent))) (lastPointOf (vertices st ! startAt)) st"

definition normalPath :: "nat \<Rightarrow> Layout \<Rightarrow> Layout" where
  "normalPath startAt st =
     (let n = length (vertices st);
          parentVertex = getNextParent (vertices st ! startAt);
          lastPoint = lastPointOf (vertices st ! startAt);
          (branchColorIndex, colors) = getAvailableColour startAt (availableColors st);
          branch = length (branchHeap st);
          st1 = st \<lparr> branchHeap := branchHeap st @ [newBranch branchColorIndex],
                    availableColors := colors \<rparr>;
          st2 = updVertex startAt (\<lambda>v. addToBranch v branch (p_x lastPoint)) st1;
          st3 = updVertex startAt (\<lambda>v. registerUnavailablePoint v (p_x lastPoint)
                                          (Some (V startAt)) branch) st2;
          (i, vertex', parentVertex', st4) =
             normalScan n (startAt + 1) startAt parentVertex branch lastPoint st3;
          st5 = (if i = n \<and> parentVertex' = Some NullVertex
                 then updVertex vertex' registerParentProcessed st4 else st4);
          st6 = setEnd branch i st5
      in st6 \<lparr> graphBranches := graphBranches st6 @ [branch],
               availableColors := (availableColors st6)[branchColorIndex := i] \<rparr>)"

definition determinePath :: "nat \<Rightarrow> Layout \<Rightarrow> Layout" where
  "determinePath startAt st =
     (case mergeParent st startAt of
        Some parent \<Rightarrow> mergePath startAt parent st
      | None \<Rightarrow> normalPath startAt st)"

text \<open>
  The \<open>while\<close> loop over the rows. Nothing bounds the number of its rounds, so the
  model counts them: \<open>None\<close> says that \<open>fuel\<close> rounds did not end the loop.
\<close>

fun mainLoop :: "nat \<Rightarrow> nat \<Rightarrow> Layout \<Rightarrow> Layout option" where
  "mainLoop 0 i st = None"
| "mainLoop (Suc fuel) i st =
     (if i < length (vertices st) then
        (if getNextParent (vertices st ! i) \<noteq> None \<or> isNotOnBranch (vertices st ! i)
         then mainLoop fuel i (determinePath i st)
         else mainLoop fuel (i + 1) st)
      else Some st)"

text \<open>The body of the completion sweep at row \<open>i\<close>, and the sweep.\<close>

definition sweepRow :: "Layout \<Rightarrow> nat \<Rightarrow> Layout" where
  "sweepRow st i =
     (if isNotOnBranch (vertices st ! i) then
        (let (branchColorIndex, colors) = getAvailableColour i (availableColors st);
             branch = length (branchHeap st);
             st1 = st \<lparr> branchHeap := branchHeap st @ [newBranch branchColorIndex],
                       availableColors := colors \<rparr>;
             point = getNextPoint (vertices st1 ! i);
             st2 = updVertex i (\<lambda>v. addToBranch v branch (p_x point)) st1;
             st3 = updVertex i (\<lambda>v. registerUnavailablePoint v (p_x point)
                                       (Some (V i)) branch) st2;
             st4 = setEnd branch (i + 1) st3
         in st4 \<lparr> graphBranches := graphBranches st4 @ [branch],
                  availableColors := (availableColors st4)[branchColorIndex := i] \<rparr>)
      else st)"

definition completionSweep :: "Layout \<Rightarrow> Layout" where
  "completionSweep st = foldl sweepRow st [0..<length (vertices st)]"

text \<open>
  The vertices that \<open>buildGraphData\<close> creates for the sorted nodes: row \<open>i\<close>
  gets the parents of its commit, a parent hash that has no row being the \<open>nullVertex\<close>,
  and the children that name it as a parent; the first row whose branches include the
  current branch is marked as current.
\<close>

fun lookupRow :: "string list \<Rightarrow> string \<Rightarrow> nat \<Rightarrow> nat option" where
  "lookupRow [] h i = None"
| "lookupRow (x # xs) h i = (if x = h then Some i else lookupRow xs h (i + 1))"

definition parentRef :: "string list \<Rightarrow> string \<Rightarrow> vref" where
  "parentRef sortedHashes parentHash =
     (case lookupRow sortedHashes parentHash 0 of Some j \<Rightarrow> V j | None \<Rightarrow> NullVertex)"

fun firstRowWith :: "string \<Rightarrow> DagNode list \<Rightarrow> nat \<Rightarrow> nat option" where
  "firstRowWith currentBranch [] i = None"
| "firstRowWith currentBranch (node # rest) i =
     (if currentBranch \<in> set (n_branches node) then Some i
      else firstRowWith currentBranch rest (i + 1))"

definition buildVertices :: "string option \<Rightarrow> DagNode list \<Rightarrow> Vertex list" where
  "buildVertices currentBranch rows =
     (let sortedHashes = map n_hash rows;
          currentRow = (case currentBranch of
                          None \<Rightarrow> None
                        | Some name \<Rightarrow> if name = [] then None else firstRowWith name rows 0)
      in map (\<lambda>i. (newVertex i)
             \<lparr> v_parents := map (parentRef sortedHashes) (n_parents (rows ! i)),
               v_children := concat (map (\<lambda>j. map (\<lambda>p. V j)
                                 (filter (\<lambda>p. parentRef sortedHashes p = V i)
                                         (n_parents (rows ! j))))
                               [0..<length rows]),
               v_isCurrent := (currentRow = Some i) \<rparr>)
          [0..<length rows])"

definition initialLayout :: "Vertex list \<Rightarrow> Layout" where
  "initialLayout vs = \<lparr> vertices = vs, branchHeap = [], graphBranches = [], availableColors = [] \<rparr>"


definition timestampOrZero :: "jsnumber \<Rightarrow> int" where
  "timestampOrZero t = (case t of Num i \<Rightarrow> i | NaN \<Rightarrow> 0)"

text \<open>
  \<open>nodeMap\<close>: one entry per hash, in the order of the nodes. A node without parents
  or without branches takes those of the commit of the same hash in \<open>commitMap\<close>, the
  map of the commits of the log (parents and branches of each), and a timestamp that is
  \<open>NaN\<close> counts as 0.
\<close>

type_synonym LogCommitMap = "(string list \<times> string list) jsmap"

definition nodeMapEntry :: "LogCommitMap \<Rightarrow> DagNode \<Rightarrow> DagNode" where
  "nodeMapEntry commitMap node =
     (let fallbackParents = (case mapGet commitMap (n_hash node) of
                               Some c \<Rightarrow> fst c | None \<Rightarrow> []);
          fallbackBranches = (case mapGet commitMap (n_hash node) of
                                Some c \<Rightarrow> snd c | None \<Rightarrow> [])
      in node \<lparr> n_branches := (if length (n_branches node) > 0 then n_branches node
                                 else fallbackBranches),
                n_parents := (if length (n_parents node) > 0 then n_parents node
                              else fallbackParents),
                n_timestamp := Num (timestampOrZero (n_timestamp node)) \<rparr>)"

definition nodeMapOf :: "LogCommitMap \<Rightarrow> DagNode list \<Rightarrow> DagNode jsmap" where
  "nodeMapOf commitMap nodes =
     foldl (\<lambda>nodeMap node. mapSet nodeMap (n_hash node) (nodeMapEntry commitMap node)) [] nodes"

definition sortedNodes :: "LogCommitMap \<Rightarrow> DagNode list \<Rightarrow> DagNode list" where
  "sortedNodes commitMap nodes =
     sort_key (\<lambda>node. - timestampOrZero (n_timestamp node))
              (mapValues (nodeMapOf commitMap nodes))"




section \<open>Commit maps and snapshots that the service builds\<close>

text \<open>
  \<open>keyed\<close>: every entry of the commit map sits under the hash of its record, and no
  hash is the empty string. \<open>boundedGraph\<close>: the snapshot has at most
  \<open>MAX_COMMITS\<close> nodes and none of them has the empty string as hash.
  \<open>boundedStorage\<close>: every stored snapshot is of that kind.
\<close>

definition keyed :: "CommitMap \<Rightarrow> bool" where
  "keyed m = (\<forall>e\<in>set m. hash (snd e) = fst e \<and> fst e \<noteq> [])"

definition boundedGraph :: "BranchGraphData \<Rightarrow> bool" where
  "boundedGraph g =
     (case g_dag g of
        None \<Rightarrow> True
      | Some dag \<Rightarrow> length (d_nodes dag) \<le> BRANCH_GRAPH_MAX_COMMITS
                    \<and> (\<forall>n\<in>set (d_nodes dag). n_hash n \<noteq> []))"

definition boundedStorage :: "Storage option \<Rightarrow> bool" where
  "boundedStorage storage =
     (case storage of
        None \<Rightarrow> True
      | Some st \<Rightarrow> \<forall>g\<in>set (mapValues (st_graphs st)). boundedGraph g)"

section \<open>Relations between the states of a layout run\<close>

text \<open>
  \<open>keepsBinding v v'\<close>: the later state \<open>v'\<close> of a vertex has the parents and id
  of \<open>v\<close>, has processed no fewer parents, and has the branch and track of \<open>v\<close> if
  \<open>v\<close> has them. \<open>frame st st'\<close>:
  the later state \<open>st'\<close> has the colours, the pushed branches, and the end and colour
  of every branch object of \<open>st\<close>, and every vertex keeps its binding.
\<close>

definition keepsBinding :: "Vertex \<Rightarrow> Vertex \<Rightarrow> bool" where
  "keepsBinding v v' =
     (v_parents v' = v_parents v \<and> v_id v' = v_id v
      \<and> v_nextParent v \<le> v_nextParent v'
      \<and> (v_onBranch v \<noteq> None \<longrightarrow> v_onBranch v' = v_onBranch v \<and> v_x v' = v_x v))"

definition frame :: "Layout \<Rightarrow> Layout \<Rightarrow> bool" where
  "frame st st' =
     (availableColors st' = availableColors st
      \<and> graphBranches st' = graphBranches st
      \<and> map b_end (branchHeap st') = map b_end (branchHeap st)
      \<and> map b_colorIndex (branchHeap st') = map b_colorIndex (branchHeap st)
      \<and> length (vertices st') = length (vertices st)
      \<and> (\<forall>j<length (vertices st). keepsBinding (vertices st ! j) (vertices st' ! j)))"

text \<open>
  \<open>colourInv\<close>: every branch object has a colour that is a slot of
  \<open>availableColors\<close>, and its recorded end is at most the value of that slot.
\<close>

definition colourInv :: "Layout \<Rightarrow> bool" where
  "colourInv st =
     (\<forall>b<length (branchHeap st).
        b_colorIndex (branchHeap st ! b) < length (availableColors st)
        \<and> b_end (branchHeap st ! b) \<le> availableColors st ! b_colorIndex (branchHeap st ! b))"

text \<open>
  \<open>slotInv\<close>: the value of every slot of \<open>availableColors\<close> is the recorded end
  of a branch object that has the colour of the slot.
\<close>

definition slotInv :: "Layout \<Rightarrow> bool" where
  "slotInv st =
     (\<forall>c<length (availableColors st). \<exists>b<length (branchHeap st).
        b_colorIndex (branchHeap st ! b) = c
        \<and> b_end (branchHeap st ! b) = availableColors st ! c)"

definition allBound :: "Layout \<Rightarrow> bool" where
  "allBound st = (\<forall>j<length (vertices st). \<not> isNotOnBranch (vertices st ! j))"







section \<open>Definitions that follow the wording of the specification\<close>

text \<open>
  The candidates of merge inference as the specification words them: names of the
  merge commit that the first parent has and the second lacks are "to" candidates, names
  of the second parent not claimed as "to" are "from" candidates.
\<close>

definition spec_toCandidates ::
  "CommitNodeInfo \<Rightarrow> CommitNodeInfo \<Rightarrow> CommitNodeInfo \<Rightarrow> string list" where
  "spec_toCandidates commitNode firstParentNode secondParentNode =
     filter (\<lambda>b. b \<in> set (branches firstParentNode) \<and> b \<notin> set (branches secondParentNode))
            (branches commitNode)"

definition spec_fromCandidates ::
  "CommitNodeInfo \<Rightarrow> CommitNodeInfo \<Rightarrow> CommitNodeInfo \<Rightarrow> string list" where
  "spec_fromCandidates commitNode firstParentNode secondParentNode =
     filter (\<lambda>b. b \<notin> set (spec_toCandidates commitNode firstParentNode secondParentNode))
            (branches secondParentNode)"

text \<open>Commit maps of any size with distinct non-empty keys, for concrete evaluations.\<close>

definition sampleNode :: "string \<Rightarrow> CommitNodeInfo" where
  "sampleNode h = \<lparr> hash = h, parents = [], timestamp = Num 0, branches = [] \<rparr>"

definition sampleKey :: "nat \<Rightarrow> string" where
  "sampleKey i = replicate (Suc i) (CHR ''c'')"

definition sampleCommits :: "nat \<Rightarrow> CommitMap" where
  "sampleCommits n = map (\<lambda>i. (sampleKey i, sampleNode (sampleKey i))) [0..<n]"

text \<open>
  A merge commit \<open>c4\<close> and candidate parents: \<open>c3\<close> carries \<open>main\<close> and
  \<open>topic\<close>, the second parent carries \<open>topic\<close> or \<open>feature\<close>.
\<close>

definition mergeNode :: CommitNodeInfo where
  "mergeNode = \<lparr> hash = ''c4'', parents = [''c3'', ''c2''], timestamp = Num 4000,
                 branches = [''main''] \<rparr>"

definition firstParent :: CommitNodeInfo where
  "firstParent = \<lparr> hash = ''c3'', parents = [], timestamp = Num 3000,
                   branches = [''main'', ''topic''] \<rparr>"

definition secondParent :: CommitNodeInfo where
  "secondParent = \<lparr> hash = ''c2'', parents = [], timestamp = Num 2000,
                    branches = [''topic''] \<rparr>"

definition mergeCommits :: CommitMap where
  "mergeCommits = [(''c4'', mergeNode), (''c3'', firstParent), (''c2'', secondParent)]"

definition featureParent :: CommitNodeInfo where
  "featureParent = \<lparr> hash = ''c2'', parents = [], timestamp = Num 2000,
                     branches = [''feature''] \<rparr>"

definition truncatedCommits :: CommitMap where
  "truncatedCommits = [(''c4'', mergeNode), (''c3'', firstParent)]"

text \<open>
  An entry of the recorded merge history for the merge commit \<open>c4\<close>, and a branch
  summary in which both of its branches are local.
\<close>

definition recordedMerge :: MergeEdge where
  "recordedMerge = \<lparr> m_from = ''feature'', m_to = ''main'', m_commit = ''c4'',
                     m_type = ThreeWay, m_description = None, m_timestamp = None \<rparr>"

definition featureAndMain :: BranchSummary where
  "featureAndMain = \<lparr> bs_all = [''feature'', ''main''], bs_current = ''main'' \<rparr>"

text \<open>
  The white-space separated tokens of a string, as the specification speaks of them:
  the maximal runs of characters that are not white space.
\<close>

function wsTokens :: "string \<Rightarrow> string list" where
  "wsTokens s =
     (let t = dropWhile isSpace s in
      if t = [] then []
      else takeWhile (\<lambda>c. \<not> isSpace c) t # wsTokens (dropWhile (\<lambda>c. \<not> isSpace c) t))"
  by pat_completeness auto
termination
proof (relation "measure length")
  show "wf (measure length)" by simp
next
  fix s t :: string
  assume t: "t = dropWhile isSpace s" and ne: "t \<noteq> []"
  from ne obtain c cs where tc: "t = c # cs" by (cases t) auto
  from ne have "\<not> isSpace (hd t)" unfolding t by (rule hd_dropWhile)
  with tc have "\<not> isSpace c" by simp
  with tc have "length (dropWhile (\<lambda>c. \<not> isSpace c) t) \<le> length cs"
    by (simp add: length_dropWhile_le)
  also have "length cs < length t" using tc by simp
  also have "length t \<le> length s" unfolding t by (rule length_dropWhile_le)
  finally show "(dropWhile (\<lambda>c. \<not> isSpace c) t, s) \<in> measure length" by simp
qed

declare wsTokens.simps [simp del]

text \<open>
  The records a run of the parsing loop retains: those of the lines on which the loop
  body reaches \<open>commits.set\<close>, in order.
\<close>

fun retainedRecords :: "(nat \<Rightarrow> int) \<Rightarrow> nat \<Rightarrow> string list \<Rightarrow> CommitNodeInfo list" where
  "retainedRecords clock k [] = []"
| "retainedRecords clock k (line # rest) =
     (case parseLine (clock k) line of
        Inr (Some node) \<Rightarrow> node # retainedRecords clock (Suc k) rest
      | _ \<Rightarrow> retainedRecords clock (Suc k) rest)"




text \<open>A log of five commits without parents and decorations.\<close>

definition fiveLog :: string where
  "fiveLog = ''a'' @ [CHR 0x00, CHR 0x00, CHR 0x00] @ ''5'' @ [CHR 0x0A]
     @ ''b'' @ [CHR 0x00, CHR 0x00, CHR 0x00] @ ''4'' @ [CHR 0x0A]
     @ ''c'' @ [CHR 0x00, CHR 0x00, CHR 0x00] @ ''3'' @ [CHR 0x0A]
     @ ''d'' @ [CHR 0x00, CHR 0x00, CHR 0x00] @ ''2'' @ [CHR 0x0A]
     @ ''e'' @ [CHR 0x00, CHR 0x00, CHR 0x00] @ ''1''"

definition fiveCommits :: CommitMap where
  "fiveCommits = (case parseGitLogToCommitMap (\<lambda>k. 0) fiveLog of Inl e \<Rightarrow> [] | Inr m \<Rightarrow> m)"

text \<open>
  A repository whose head moves from \<open>c1\<close> to \<open>c2\<close>. At \<open>c1\<close> the branch
  \<open>dev\<close> (not checked out) points to \<open>c1\<close>; at \<open>c2\<close> it has been moved to
  \<open>c2\<close>. \<open>logAtC1\<close> and \<open>logAtC2\<close> are the full logs of the two states,
  \<open>logC1toC2\<close> is the log of the range \<open>c1..c2\<close>.
\<close>

definition logAtC1 :: string where
  "logAtC1 = ''c1'' @ [CHR 0x00] @ [CHR 0x00]
     @ ''HEAD -> refs/heads/main, refs/heads/dev'' @ [CHR 0x00] @ ''100''"

definition logC1toC2 :: string where
  "logC1toC2 = ''c2'' @ [CHR 0x00] @ ''c1'' @ [CHR 0x00]
     @ ''HEAD -> refs/heads/main, refs/heads/dev'' @ [CHR 0x00] @ ''200''"

definition logAtC2 :: string where
  "logAtC2 = logC1toC2 @ [CHR 0x0A] @ ''c1'' @ [CHR 0x00] @ [CHR 0x00] @ [CHR 0x00] @ ''100''"

definition twoBranches :: BranchSummary where
  "twoBranches = \<lparr> bs_all = [''dev'', ''main''], bs_current = ''main'' \<rparr>"

definition gitAtC1 :: GitEnv where
  "gitAtC1 = \<lparr> revparseHead = Inr ''c1'', logAll = Inr logAtC1,
               logRange = (\<lambda>base head. Inr []),
               mergeBaseIsAncestor = (\<lambda>a d. Inr ()), branchQuery = Inr twoBranches \<rparr>"

definition gitAtC2 :: GitEnv where
  "gitAtC2 = \<lparr> revparseHead = Inr ''c2'', logAll = Inr logAtC2,
               logRange = (\<lambda>base head. Inr logC1toC2),
               mergeBaseIsAncestor = (\<lambda>a d. Inr ()), branchQuery = Inr twoBranches \<rparr>"

definition snapshotAtC1 :: BranchGraphData where
  "snapshotAtC1 = buildFullBranchGraph gitAtC1 (\<lambda>k. 0) None"

definition storageAtC1 :: Storage where
  "storageAtC1 = \<lparr> st_graphs = [(''c1'', snapshotAtC1)], st_index = [''c1''] \<rparr>"









text \<open>A chain of three commits, newest first, and a single commit.\<close>

definition chainNodes :: "DagNode list" where
  "chainNodes =
     [\<lparr> n_hash = ''c3'', n_parents = [''c2''], n_branches = [], n_timestamp = Num 300000,
         n_isMerge = False \<rparr>,
      \<lparr> n_hash = ''c2'', n_parents = [''c1''], n_branches = [], n_timestamp = Num 200000,
         n_isMerge = False \<rparr>,
      \<lparr> n_hash = ''c1'', n_parents = [], n_branches = [], n_timestamp = Num 100000,
         n_isMerge = False \<rparr>]"


definition chainVertices :: "Vertex list" where
  "chainVertices = buildVertices None (sortedNodes [] chainNodes)"

text \<open>
  The chain after the first call of \<open>determinePath\<close> and after the main loop; a
  layout of one and of two fresh vertices, on which the sweep has work to do.
\<close>

definition chainStep :: Layout where
  "chainStep = determinePath 0 (initialLayout chainVertices)"

definition chainResult :: Layout where
  "chainResult = the (mainLoop 20 0 (initialLayout chainVertices))"

definition oneUnbound :: Layout where
  "oneUnbound = initialLayout [newVertex 0]"

definition twoUnbound :: Layout where
  "twoUnbound = initialLayout [newVertex 0, newVertex 1]"

section \<open>Properties of \<open>enforceCommitLimit\<close>\<close>

lemma mapDelete_last_distinct:
  assumes "distinct (mapKeys m)" and "m \<noteq> []"
  shows "mapDelete m (fst (last m)) = butlast m"
proof -
  from \<open>m \<noteq> []\<close> obtain ys e where m: "m = ys @ [e]"
    by (cases m rule: rev_cases) auto
  with assms(1) have "fst e \<notin> fst ` set ys"
    by (simp add: mapKeys_def)
  then have "\<forall>p\<in>set ys. fst p \<noteq> fst e"
    by (metis imageI)
  then have "filter (\<lambda>p. fst p \<noteq> fst e) ys = ys"
    by simp
  with m show ?thesis by (simp add: mapDelete_def)
qed

lemma take_butlast_less: "limit < length xs \<Longrightarrow> take limit (butlast xs) = take limit xs"
  by (cases xs rule: rev_cases) auto

lemma enforceCommitLimitAt_take:
  "distinct (mapKeys commits) \<Longrightarrow> [] \<notin> set (mapKeys commits)
     \<Longrightarrow> enforceCommitLimitAt limit commits = take limit commits"
proof (induction limit commits rule: enforceCommitLimitAt.induct)
  case (1 limit commits)
  show ?case
  proof (cases "mapSize commits > limit")
    case False
    then show ?thesis
      by (subst enforceCommitLimitAt.simps) (simp add: mapSize_def)
  next
    case True
    then have ne: "commits \<noteq> []" by (auto simp: mapSize_def)
    let ?k = "fst (last commits)"
    have lk: "lastKeyOf commits = Some ?k" using ne by (rule lastKeyOf_last)
    have kin: "?k \<in> set (mapKeys commits)" using ne by (simp add: mapKeys_def)
    with "1.prems"(2) have kne: "?k \<noteq> []" by metis
    have del: "mapDelete commits ?k = butlast commits"
      using "1.prems"(1) ne by (rule mapDelete_last_distinct)
    have d': "distinct (mapKeys (butlast commits))"
      using "1.prems"(1) by (simp add: mapKeys_def map_butlast distinct_butlast)
    have e': "[] \<notin> set (mapKeys (butlast commits))"
      using "1.prems"(2) by (auto simp: mapKeys_def dest: in_set_butlastD)
    have "enforceCommitLimitAt limit commits = enforceCommitLimitAt limit (butlast commits)"
      using True lk kne del by (subst enforceCommitLimitAt.simps) simp
    also have "\<dots> = take limit (butlast commits)"
      using "1.IH" [OF True lk kne] d' e' del by simp
    also have "\<dots> = take limit commits"
      using True by (simp add: take_butlast_less mapSize_def)
    finally show ?thesis .
  qed
qed

lemma enforceCommitLimitAt_bound:
  "[] \<notin> set (mapKeys commits) \<Longrightarrow> mapSize (enforceCommitLimitAt limit commits) \<le> limit"
proof (induction limit commits rule: enforceCommitLimitAt.induct)
  case (1 limit commits)
  show ?case
  proof (cases "mapSize commits > limit")
    case False
    then show ?thesis
      by (subst enforceCommitLimitAt.simps) simp
  next
    case True
    then have ne: "commits \<noteq> []" by (auto simp: mapSize_def)
    let ?k = "fst (last commits)"
    have lk: "lastKeyOf commits = Some ?k" using ne by (rule lastKeyOf_last)
    have kin: "?k \<in> set (mapKeys commits)" using ne by (simp add: mapKeys_def)
    with "1.prems" have kne: "?k \<noteq> []" by metis
    have e': "[] \<notin> set (mapKeys (mapDelete commits ?k))"
      using "1.prems" by (auto simp: mapKeys_def mapDelete_def)
    have "enforceCommitLimitAt limit commits = enforceCommitLimitAt limit (mapDelete commits ?k)"
      using True lk kne by (subst enforceCommitLimitAt.simps) simp
    with "1.IH" [OF True lk kne e'] show ?thesis by simp
  qed
qed

lemma enforceCommitLimitAt_small:
  "mapSize commits \<le> limit \<Longrightarrow> enforceCommitLimitAt limit commits = commits"
  by (subst enforceCommitLimitAt.simps) simp

section \<open>Properties of merge inference\<close>

lemma toBranchCandidates_eq:
  "toBranchCandidates c p1 p2 =
     filter (\<lambda>b. b \<in> set (branches p1) \<and> b \<notin> set (branches p2)) (branches c)"
  by (simp add: toBranchCandidates_def setHas_def)

lemma fromBranchCandidates_eq:
  "fromBranchCandidates c p1 p2 =
     filter (\<lambda>b. b \<notin> set (branches p1) \<or> b \<in> set (branches c)) (branches p2)"
  unfolding fromBranchCandidates_def toBranchCandidates_eq setHas_def
  by (rule filter_cong) auto

lemma from_to_disjoint:
  "set (fromBranchCandidates c p1 p2) \<inter> set (toBranchCandidates c p1 p2) = {}"
  by (auto simp: toBranchCandidates_eq fromBranchCandidates_eq)

lemma chosen_differ:
  assumes "toBranchCandidates c p1 p2 \<noteq> []" "fromBranchCandidates c p1 p2 \<noteq> []"
  shows "fromBranchCandidates c p1 p2 ! 0 \<noteq>
         (if cur \<in> set (toBranchCandidates c p1 p2) then cur
          else toBranchCandidates c p1 p2 ! 0)"
proof -
  let ?to = "toBranchCandidates c p1 p2" and ?from = "fromBranchCandidates c p1 p2"
  have f: "?from ! 0 \<in> set ?from" using assms(2) by simp
  have t: "(if cur \<in> set ?to then cur else ?to ! 0) \<in> set ?to"
    using assms(1) by auto
  from f t from_to_disjoint [of c p1 p2] show ?thesis by auto
qed

lemma mergeLoopBody_found:
  assumes "length (parents c) \<ge> 2"
    and "mapGet commits (parents c ! 0) = Some p1"
    and "mapGet commits (parents c ! 1) = Some p2"
  shows "mergeLoopBody commits cur merges (h, c) =
     (if toBranchCandidates c p1 p2 = [] \<or> fromBranchCandidates c p1 p2 = [] then merges
      else if list_ex (samePair (hd (fromBranchCandidates c p1 p2))
                 (if cur \<in> set (toBranchCandidates c p1 p2) then cur
                  else hd (toBranchCandidates c p1 p2))) merges then merges
      else merges @ [\<lparr> m_from = hd (fromBranchCandidates c p1 p2),
                        m_to = (if cur \<in> set (toBranchCandidates c p1 p2) then cur
                                else hd (toBranchCandidates c p1 p2)),
                        m_commit = h, m_type = ThreeWay,
                        m_description = Some (threeWayDescription
                           (hd (fromBranchCandidates c p1 p2))
                           (if cur \<in> set (toBranchCandidates c p1 p2) then cur
                            else hd (toBranchCandidates c p1 p2))),
                        m_timestamp = Some (timestamp c) \<rparr>])"
proof (cases "toBranchCandidates c p1 p2 = [] \<or> fromBranchCandidates c p1 p2 = []")
  case True
  then show ?thesis using assms by (auto simp: mergeLoopBody_def Let_def)
next
  case False
  then have ne: "toBranchCandidates c p1 p2 \<noteq> []" "fromBranchCandidates c p1 p2 \<noteq> []"
    by auto
  note d = chosen_differ [OF ne, of cur]
  have h0: "toBranchCandidates c p1 p2 ! 0 = hd (toBranchCandidates c p1 p2)"
    "fromBranchCandidates c p1 p2 ! 0 = hd (fromBranchCandidates c p1 p2)"
    using ne by (simp_all add: hd_conv_nth)
  show ?thesis using assms ne d h0
    by (simp add: mergeLoopBody_def Let_def)
qed

lemma mergeLoopBody_missing:
  assumes "mapGet commits (parents c ! 0) = None \<or> mapGet commits (parents c ! 1) = None"
  shows "mergeLoopBody commits cur merges (h, c) = merges"
  using assms by (auto simp: mergeLoopBody_def Let_def split: option.splits)

lemma mergeLoopBody_extends:
  "\<exists>rest. mergeLoopBody commits cur merges e = merges @ rest"
  by (auto simp: mergeLoopBody_def Let_def split: option.splits)

lemma mergeLoopBody_distinct:
  assumes "distinct (map (\<lambda>m. (m_from m, m_to m)) merges)"
  shows "distinct (map (\<lambda>m. (m_from m, m_to m)) (mergeLoopBody commits cur merges e))"
  using assms
  by (auto simp: mergeLoopBody_def Let_def list_ex_iff samePair_def split: option.splits)

lemma mergeLoop_fold_distinct:
  "distinct (map (\<lambda>m. (m_from m, m_to m)) acc) \<Longrightarrow>
   distinct (map (\<lambda>m. (m_from m, m_to m)) (foldl (mergeLoopBody commits cur) acc xs))"
  by (induction xs arbitrary: acc) (simp_all add: mergeLoopBody_distinct)

lemma mergeLoopBody_origin:
  assumes "e \<in> set (mergeLoopBody commits cur merges entry)"
  shows "e \<in> set merges \<or>
         (m_commit e = fst entry \<and> mapGet commits (parents (snd entry) ! 0) \<noteq> None
            \<and> mapGet commits (parents (snd entry) ! 1) \<noteq> None)"
  using assms
  by (auto simp: mergeLoopBody_def Let_def split: option.splits if_splits)

lemma mergeLoop_fold_origin:
  "e \<in> set (foldl (mergeLoopBody commits cur) acc xs) \<Longrightarrow>
   e \<in> set acc \<or> (\<exists>entry\<in>set xs. m_commit e = fst entry
        \<and> mapGet commits (parents (snd entry) ! 0) \<noteq> None
        \<and> mapGet commits (parents (snd entry) ! 1) \<noteq> None)"
proof (induction xs arbitrary: acc)
  case Nil
  then show ?case by simp
next
  case (Cons x xs)
  from Cons.IH [of "mergeLoopBody commits cur acc x"] Cons.prems
  show ?case using mergeLoopBody_origin [of e commits cur acc x] by auto
qed

lemma historyLoopBody_origin:
  "e \<in> set (historyLoopBody allBranches merges item) \<Longrightarrow>
   e \<in> set merges
   \<or> (e = item \<and> m_type item = ThreeWay \<and> m_from item \<in> set allBranches
        \<and> m_to item \<in> set allBranches)"
  by (auto simp: historyLoopBody_def split: if_splits)

lemma history_fold_origin:
  "e \<in> set (foldl (historyLoopBody allBranches) acc items) \<Longrightarrow>
   e \<in> set acc
   \<or> (e \<in> set items \<and> m_type e = ThreeWay \<and> m_from e \<in> set allBranches
        \<and> m_to e \<in> set allBranches)"
proof (induction items arbitrary: acc)
  case Nil
  then show ?case by simp
next
  case (Cons x xs)
  from Cons.IH [of "historyLoopBody allBranches acc x"] Cons.prems
  show ?case using historyLoopBody_origin [of e allBranches acc x] by auto
qed

section \<open>Sample commit maps\<close>

lemma sampleKey_inj: "sampleKey i = sampleKey j \<longleftrightarrow> i = j"
proof
  assume "sampleKey i = sampleKey j"
  then have "length (sampleKey i) = length (sampleKey j)" by simp
  then show "i = j" by (simp add: sampleKey_def)
qed simp

lemma sampleCommits_keys: "mapKeys (sampleCommits n) = map sampleKey [0..<n]"
  by (simp add: sampleCommits_def mapKeys_def comp_def)

lemma sampleCommits_distinct: "distinct (mapKeys (sampleCommits n))"
  unfolding sampleCommits_keys
  by (simp add: distinct_map inj_on_def sampleKey_inj)

lemma sampleCommits_nonempty: "[] \<notin> set (mapKeys (sampleCommits n))"
  by (auto simp: sampleCommits_keys sampleKey_def)

lemma sampleCommits_take: "k \<le> n \<Longrightarrow> take k (sampleCommits n) = sampleCommits k"
  by (simp add: sampleCommits_def take_map min_def)

lemma sampleCommits_size: "mapSize (sampleCommits n) = n"
  by (simp add: sampleCommits_def mapSize_def)

section \<open>Properties of the string operations\<close>

lemma splitOn_nonempty: "splitOn sep s \<noteq> []"
  by (induction s) (auto split: list.splits)

lemma splitSpaces_nonempty: "splitSpaces s \<noteq> []"
  by (induction s rule: splitSpaces.induct) (auto split: list.splits)

lemma wsTokens_Nil: "wsTokens [] = []"
  by (simp add: wsTokens.simps)

lemma wsTokens_space: "isSpace c \<Longrightarrow> wsTokens (c # cs) = wsTokens cs"
  by (subst wsTokens.simps, subst (2) wsTokens.simps) simp

lemma wsTokens_dropWhile: "wsTokens (dropWhile isSpace s) = wsTokens s"
  by (induction s) (simp_all add: wsTokens_space)

lemma wsTokens_nonspace:
  "\<not> isSpace c \<Longrightarrow> wsTokens (c # cs) =
     (c # takeWhile (\<lambda>c. \<not> isSpace c) cs) # wsTokens (dropWhile (\<lambda>c. \<not> isSpace c) cs)"
  by (subst wsTokens.simps) simp

lemma splitSpaces_shape:
  "hd (splitSpaces s) = takeWhile (\<lambda>c. \<not> isSpace c) s
   \<and> filter (\<lambda>p. p \<noteq> []) (tl (splitSpaces s)) = wsTokens (dropWhile (\<lambda>c. \<not> isSpace c) s)"
proof (induction s rule: splitSpaces.induct)
  case 1
  show ?case by (simp add: wsTokens_Nil)
next
  case (2 c cs)
  show ?case
  proof (cases "isSpace c")
    case True
    let ?d = "dropWhile isSpace cs"
    from 2(1) [OF True] have ih:
      "hd (splitSpaces ?d) = takeWhile (\<lambda>c. \<not> isSpace c) ?d"
      "filter (\<lambda>p. p \<noteq> []) (tl (splitSpaces ?d)) = wsTokens (dropWhile (\<lambda>c. \<not> isSpace c) ?d)"
      by simp_all
    obtain r rs where R: "splitSpaces ?d = r # rs"
      using splitSpaces_nonempty [of ?d] by (cases "splitSpaces ?d") auto
    have tok: "wsTokens (c # cs) = wsTokens ?d"
      using True by (simp add: wsTokens_space wsTokens_dropWhile)
    have "filter (\<lambda>p. p \<noteq> []) (splitSpaces ?d) = wsTokens ?d"
    proof (cases ?d)
      case Nil
      show ?thesis by (simp only: Nil) (simp add: wsTokens_Nil)
    next
      case (Cons e es)
      then have "\<not> isSpace e" by (metis hd_dropWhile list.sel(1) list.distinct(1))
      with Cons ih R show ?thesis by (simp add: wsTokens_nonspace)
    qed
    with True tok show ?thesis by simp
  next
    case False
    obtain w ws where W: "splitSpaces cs = w # ws"
      using splitSpaces_nonempty [of cs] by (cases "splitSpaces cs") auto
    with 2(2) [OF False] False show ?thesis by simp
  qed
qed

lemma splitSpaces_tokens: "filter (\<lambda>p. p \<noteq> []) (splitSpaces s) = wsTokens s"
proof (cases s)
  case Nil
  then show ?thesis by (simp add: wsTokens_Nil)
next
  case (Cons c cs)
  obtain r rs where R: "splitSpaces s = r # rs"
    using splitSpaces_nonempty [of s] by (cases "splitSpaces s") auto
  from splitSpaces_shape [of s] R have sh:
    "r = takeWhile (\<lambda>c. \<not> isSpace c) s"
    "filter (\<lambda>p. p \<noteq> []) rs = wsTokens (dropWhile (\<lambda>c. \<not> isSpace c) s)"
    by simp_all
  show ?thesis
  proof (cases "isSpace c")
    case True
    with Cons sh R show ?thesis by simp
  next
    case False
    with Cons sh R show ?thesis by (simp add: wsTokens_nonspace)
  qed
qed

lemma splitSpaces_no_space: "p \<in> set (splitSpaces s) \<Longrightarrow> c \<in> set p \<Longrightarrow> \<not> isSpace c"
proof (induction s arbitrary: p rule: splitSpaces.induct)
  case 1
  then show ?case by simp
next
  case (2 d ds)
  show ?case
  proof (cases "isSpace d")
    case True
    with 2(1) [OF True] 2(3,4) show ?thesis by auto
  next
    case False
    obtain w ws where W: "splitSpaces ds = w # ws"
      using splitSpaces_nonempty [of ds] by (cases "splitSpaces ds") auto
    have ih: "\<not> isSpace c" if "q \<in> set (splitSpaces ds)" "c \<in> set q" for q
      using 2(2) [OF False that] .
    from 2(3) W False have "p = d # w \<or> p \<in> set ws" by simp
    then show ?thesis
    proof
      assume "p = d # w"
      with 2(4) have "c = d \<or> c \<in> set w" by auto
      then show ?thesis using False ih [of w] W by auto
    next
      assume "p \<in> set ws"
      then show ?thesis using ih [of p] W 2(4) by simp
    qed
  qed
qed

lemma trim_no_space: "(\<forall>c\<in>set p. \<not> isSpace c) \<Longrightarrow> trim p = p"
proof -
  assume a: "\<forall>c\<in>set p. \<not> isSpace c"
  then have "dropWhile isSpace p = p" by (cases p) auto
  moreover from a have "dropWhile isSpace (rev p) = rev p" by (cases "rev p") auto
  ultimately show ?thesis by (simp add: trim_def)
qed

lemma splitSpaces_filter_trim:
  "filter (\<lambda>p. trim p \<noteq> []) (splitSpaces s) = wsTokens s"
proof -
  have "trim p = p" if "p \<in> set (splitSpaces s)" for p
    using that splitSpaces_no_space [of p s] trim_no_space [of p] by blast
  then have "filter (\<lambda>p. trim p \<noteq> []) (splitSpaces s) = filter (\<lambda>p. p \<noteq> []) (splitSpaces s)"
    by (intro filter_cong) simp_all
  then show ?thesis by (simp add: splitSpaces_tokens)
qed

lemma takeWhile_snoc_stop: "\<not> P c \<Longrightarrow> takeWhile P (xs @ [c]) = takeWhile P xs"
  by (induction xs) auto

lemma dropWhile_snoc_stop: "\<not> P c \<Longrightarrow> dropWhile P (xs @ [c]) = dropWhile P xs @ [c]"
  by (induction xs) auto

lemma wsTokens_snoc_space: "isSpace c \<Longrightarrow> wsTokens (s @ [c]) = wsTokens s"
proof (induction s rule: wsTokens.induct)
  case (1 s)
  let ?t = "dropWhile isSpace s"
  show ?case
  proof (cases "?t = []")
    case True
    then have "\<forall>x\<in>set s. isSpace x" by (simp add: dropWhile_eq_Nil_conv)
    with 1(2) have "dropWhile isSpace (s @ [c]) = []" by (simp add: dropWhile_eq_Nil_conv)
    with True show ?thesis by (simp add: wsTokens.simps)
  next
    case False
    then obtain x where x: "x \<in> set s" "\<not> isSpace x"
      by (auto simp: dropWhile_eq_Nil_conv)
    then have d: "dropWhile isSpace (s @ [c]) = ?t @ [c]"
      by (simp add: dropWhile_append1)
    have tw: "takeWhile (\<lambda>c. \<not> isSpace c) (?t @ [c]) = takeWhile (\<lambda>c. \<not> isSpace c) ?t"
      using 1(2) by (simp add: takeWhile_snoc_stop)
    have dw: "dropWhile (\<lambda>c. \<not> isSpace c) (?t @ [c]) = dropWhile (\<lambda>c. \<not> isSpace c) ?t @ [c]"
      using 1(2) by (simp add: dropWhile_snoc_stop)
    from 1(1) [OF refl False 1(2)]
    have ih: "wsTokens (dropWhile (\<lambda>c. \<not> isSpace c) ?t @ [c])
              = wsTokens (dropWhile (\<lambda>c. \<not> isSpace c) ?t)" .
    have L: "wsTokens (s @ [c]) = takeWhile (\<lambda>c. \<not> isSpace c) (?t @ [c])
               # wsTokens (dropWhile (\<lambda>c. \<not> isSpace c) (?t @ [c]))"
      using d False by (subst wsTokens.simps) (simp add: Let_def)
    have R: "wsTokens s = takeWhile (\<lambda>c. \<not> isSpace c) ?t
               # wsTokens (dropWhile (\<lambda>c. \<not> isSpace c) ?t)"
      using False by (subst wsTokens.simps) (simp add: Let_def)
    show ?thesis
      unfolding L R tw dw ih ..
  qed
qed

lemma wsTokens_append_spaces: "\<forall>c\<in>set sp. isSpace c \<Longrightarrow> wsTokens (s @ sp) = wsTokens s"
proof (induction sp rule: rev_induct)
  case Nil
  then show ?case by simp
next
  case (snoc x xs)
  from snoc.prems have "isSpace x" by simp
  then have "wsTokens ((s @ xs) @ [x]) = wsTokens (s @ xs)"
    by (rule wsTokens_snoc_space)
  with snoc show ?case by simp
qed

lemma wsTokens_trim: "wsTokens (trim s) = wsTokens s"
proof -
  let ?u = "dropWhile isSpace s"
  have "rev ?u = takeWhile isSpace (rev ?u) @ dropWhile isSpace (rev ?u)" by simp
  then have "?u = trim s @ rev (takeWhile isSpace (rev ?u))"
    by (metis rev_append rev_rev_ident trim_def)
  moreover have "\<forall>c\<in>set (rev (takeWhile isSpace (rev ?u))). isSpace c"
    by (auto dest: set_takeWhileD)
  ultimately have "wsTokens ?u = wsTokens (trim s)"
    by (metis wsTokens_append_spaces)
  then show ?thesis by (simp add: wsTokens_dropWhile)
qed

lemma trim_Nil_tokens: "trim s = [] \<Longrightarrow> wsTokens s = []"
  by (metis wsTokens_trim wsTokens_Nil)

section \<open>Properties of the parsing loop\<close>





lemma parseLine_total: "\<exists>r. parseLine dateNow line = Inr r"
  by (simp add: parseLine_def Let_def trimAt_def)

lemma parseLines_total: "\<exists>m. parseLines clock k lines commits = Inr m"
proof (induction lines arbitrary: k commits)
  case Nil
  show ?case by simp
next
  case (Cons line rest)
  obtain r where r: "parseLine (clock k) line = Inr r"
    using parseLine_total by blast
  show ?case using r Cons.IH by (cases r) auto
qed

lemma parseLines_retained:
  "parseLines clock k lines commits =
     Inr (foldl (\<lambda>m node. mapSet m (hash node) node) commits (retainedRecords clock k lines))"
proof (induction lines arbitrary: k commits)
  case Nil
  show ?case by simp
next
  case (Cons line rest)
  obtain r where r: "parseLine (clock k) line = Inr r"
    using parseLine_total by blast
  show ?case using r Cons.IH by (cases r) auto
qed

lemma replaceFirst_prefix:
  "startsWith r pat \<Longrightarrow> pat \<noteq> [] \<Longrightarrow> replaceFirst pat [] r = drop (length pat) r"
  by (cases r) (auto simp: startsWith_def)




lemma parseLine_record:
  assumes "parseLine dateNow line = Inr (Some node)"
  shows "length (splitOn (CHR 0x00) line) \<ge> 4
    \<and> hash node = trim (splitOn (CHR 0x00) line ! 0) \<and> hash node \<noteq> []
    \<and> parents node = wsTokens (splitOn (CHR 0x00) line ! 1)
    \<and> branches node = newSet (map (drop (length ''refs/heads/''))
         (filter (\<lambda>r. startsWith r ''refs/heads/'')
            (map trim (splitOn (CHR '','') (trim (splitOn (CHR 0x00) line ! 2))))))
    \<and> timestamp node =
        (if trim (splitOn (CHR 0x00) line ! 3) = [] then Num dateNow
         else jsTimes (parseInt10 (trim (splitOn (CHR 0x00) line ! 3))) 1000)"
proof -
  let ?parts = "splitOn (CHR 0x00) line"
  from assms have len: "length ?parts \<ge> 4"
    by (auto simp: parseLine_def Let_def split: if_splits)
  from assms len have h: "trim (?parts ! 0) \<noteq> []"
    by (auto simp: parseLine_def Let_def trimAt_def split: if_splits)
  let ?refStr = "trim (?parts ! 2)"
  have par: "(if trim (?parts ! 1) \<noteq> []
              then filter (\<lambda>p. trim p \<noteq> []) (splitSpaces (trim (?parts ! 1))) else [])
             = wsTokens (?parts ! 1)"
    by (simp add: splitSpaces_filter_trim wsTokens_trim trim_Nil_tokens)
  have refs0: "filter (\<lambda>r. startsWith r ''refs/heads/'')
                 (if ?refStr \<noteq> [] then filter (\<lambda>r. r \<noteq> []) (map trim (splitOn (CHR '','') ?refStr))
                  else [])
             = filter (\<lambda>r. startsWith r ''refs/heads/'') (map trim (splitOn (CHR '','') ?refStr))"
  proof (cases "?refStr = []")
    case True
    have "trim [] = []" by (simp add: trim_def)
    then show ?thesis by (simp only: True) (simp add: startsWith_def)
  next
    case False
    have "filter (\<lambda>r. startsWith r ''refs/heads/'') (filter (\<lambda>r. r \<noteq> []) xs)
          = filter (\<lambda>r. startsWith r ''refs/heads/'') xs" for xs :: "string list"
      by (induction xs) (auto simp: startsWith_def)
    with False show ?thesis by simp
  qed
  have strip: "map (\<lambda>r. replaceFirst ''refs/heads/'' [] r) (filter (\<lambda>r. startsWith r ''refs/heads/'') xs)
        = map (drop (length ''refs/heads/'')) (filter (\<lambda>r. startsWith r ''refs/heads/'') xs)"
    for xs :: "string list"
    by (rule map_cong) (auto simp: replaceFirst_prefix simp del: replaceFirst.simps)
  from assms len h have node: "node =
      \<lparr> hash = trim (?parts ! 0),
        parents = (if trim (?parts ! 1) \<noteq> []
              then filter (\<lambda>p. trim p \<noteq> []) (splitSpaces (trim (?parts ! 1))) else []),
        timestamp = (if trim (?parts ! 3) \<noteq> [] then jsTimes (parseInt10 (trim (?parts ! 3))) 1000
                     else Num dateNow),
        branches = newSet (map (\<lambda>r. replaceFirst ''refs/heads/'' [] r)
           (filter (\<lambda>r. startsWith r ''refs/heads/'')
              (if ?refStr \<noteq> [] then filter (\<lambda>r. r \<noteq> []) (map trim (splitOn (CHR '','') ?refStr))
               else []))) \<rparr>"
    by (simp add: parseLine_def Let_def trimAt_def split: if_splits)
  show ?thesis
    unfolding node using len h par
    by (simp only: refs0 strip) simp
qed


lemma parseGitLogToCommitMap_retained:
  "parseGitLogToCommitMap clock logOutput =
     Inr (foldl (\<lambda>m node. mapSet m (hash node) node) []
            (retainedRecords clock 0
               (filter (\<lambda>line. trim line \<noteq> []) (splitOn (CHR 0x0A) (trim logOutput)))))"
proof (cases "logOutput = [] \<or> trim logOutput = []")
  case True
  then have t: "trim logOutput = []" by (auto simp: trim_def)
  have "trim [] = []" by (simp add: trim_def)
  then show ?thesis using True
    by (simp only: parseGitLogToCommitMap_def t) simp
next
  case False
  then show ?thesis by (simp add: parseGitLogToCommitMap_def parseLines_retained)
qed



lemma mapSet_keys: "set (mapKeys (mapSet m k v)) = insert k (set (mapKeys m))"
proof (induction m)
  case Nil
  show ?case by (simp add: mapKeys_def)
next
  case (Cons e m)
  obtain k' v' where e: "e = (k', v')" by (cases e)
  from Cons.IH have ih: "fst ` set (mapSet m k v) = insert k (fst ` set m)"
    by (simp add: mapKeys_def)
  show ?case
  proof (cases "k' = k")
    case True
    then show ?thesis by (simp add: e mapKeys_def)
  next
    case False
    then show ?thesis using ih by (simp add: e mapKeys_def insert_commute)
  qed
qed

lemma mapSet_distinct: "distinct (mapKeys m) \<Longrightarrow> distinct (mapKeys (mapSet m k v))"
proof (induction m)
  case Nil
  show ?case by (simp add: mapKeys_def)
next
  case (Cons e m)
  obtain k' v' where e: "e = (k', v')" by (cases e)
  from Cons.prems have d: "distinct (mapKeys m)" and n: "k' \<notin> set (mapKeys m)"
    by (simp_all add: e mapKeys_def)
  show ?case
  proof (cases "k' = k")
    case True
    with Cons.prems show ?thesis by (simp add: e mapKeys_def)
  next
    case False
    have "k' \<notin> set (mapKeys (mapSet m k v))" using n False by (simp add: mapSet_keys)
    with Cons.IH [OF d] False show ?thesis by (simp add: e mapKeys_def)
  qed
qed

lemma retainedRecords_hash: "node \<in> set (retainedRecords clock k lines) \<Longrightarrow> hash node \<noteq> []"
proof (induction lines arbitrary: k)
  case Nil
  then show ?case by simp
next
  case (Cons line rest)
  obtain r where r: "parseLine (clock k) line = Inr r" using parseLine_total by blast
  show ?case
  proof (cases r)
    case None
    with r Cons show ?thesis by simp
  next
    case (Some n)
    with r parseLine_record [of "clock k" line n] have "hash n \<noteq> []" by blast
    with r Some Cons show ?thesis by auto
  qed
qed

lemma store_keys:
  "set (mapKeys (foldl (\<lambda>m node. mapSet m (hash node) node) acc recs))
     = set (mapKeys acc) \<union> hash ` set recs"
  by (induction recs arbitrary: acc) (auto simp: mapSet_keys)

lemma store_distinct:
  "distinct (mapKeys acc) \<Longrightarrow>
   distinct (mapKeys (foldl (\<lambda>m node. mapSet m (hash node) node) acc recs))"
  by (induction recs arbitrary: acc) (simp_all add: mapSet_distinct)

lemma parsed_keys:
  assumes "parseGitLogToCommitMap clock logOutput = Inr parsed"
  shows "[] \<notin> set (mapKeys parsed) \<and> distinct (mapKeys parsed)"
proof -
  let ?recs = "retainedRecords clock 0
      (filter (\<lambda>line. trim line \<noteq> []) (splitOn (CHR 0x0A) (trim logOutput)))"
  from assms parseGitLogToCommitMap_retained [of clock logOutput]
  have p: "parsed = foldl (\<lambda>m node. mapSet m (hash node) node) [] ?recs" by simp
  have "set (mapKeys parsed) = set (mapKeys ([] :: CommitMap)) \<union> hash ` set ?recs"
    unfolding p by (rule store_keys)
  then have "set (mapKeys parsed) = hash ` set ?recs"
    by (simp add: mapKeys_def)
  moreover have "[] \<notin> hash ` set ?recs"
    using retainedRecords_hash by (metis (no_types, lifting) imageE)
  moreover have "distinct (mapKeys parsed)"
    unfolding p by (rule store_distinct) (simp add: mapKeys_def)
  ultimately show ?thesis by simp
qed

section \<open>Properties of the incremental merge and of the rebuilds\<close>



















section \<open>The node bound along the paths of the service\<close>

lemma enforceCommitLimitAt_subset: "set (enforceCommitLimitAt limit m) \<subseteq> set m"
proof (induction limit m rule: enforceCommitLimitAt.induct)
  case (1 limit commits)
  show ?case
  proof (cases "mapSize commits > limit")
    case False
    then show ?thesis by (subst enforceCommitLimitAt.simps) simp
  next
    case True
    show ?thesis
    proof (cases "lastKeyOf commits")
      case None
      with True show ?thesis by (subst enforceCommitLimitAt.simps) simp
    next
      case (Some k)
      show ?thesis
      proof (cases "k = []")
        case e: True
        with True Some show ?thesis by (subst enforceCommitLimitAt.simps) simp
      next
        case e: False
        have "set (mapDelete commits k) \<subseteq> set commits" by (auto simp: mapDelete_def)
        with "1.IH" [OF True Some e] True Some e show ?thesis
          by (subst enforceCommitLimitAt.simps) auto
      qed
    qed
  qed
qed

lemma keyed_keys: "keyed m \<Longrightarrow> [] \<notin> set (mapKeys m)"
  by (auto simp: keyed_def mapKeys_def)

lemma keyed_enforce: "keyed m \<Longrightarrow> keyed (enforceCommitLimit m)"
  using enforceCommitLimitAt_subset [of BRANCH_GRAPH_MAX_COMMITS m]
  by (auto simp: keyed_def enforceCommitLimit_def)

lemma mapSet_subset: "set (mapSet m k v) \<subseteq> insert (k, v) (set m)"
  by (induction m) (auto split: if_splits)

lemma keyed_mapSet: "keyed m \<Longrightarrow> hash v = k \<Longrightarrow> k \<noteq> [] \<Longrightarrow> keyed (mapSet m k v)"
  using mapSet_subset [of m k v] by (auto simp: keyed_def)

lemma keyed_store:
  "keyed acc \<Longrightarrow> \<forall>r\<in>set recs. hash r \<noteq> [] \<Longrightarrow>
   keyed (foldl (\<lambda>m node. mapSet m (hash node) node) acc recs)"
  by (induction recs arbitrary: acc) (simp_all add: keyed_mapSet)

lemma keyed_parsed:
  assumes "parseGitLogToCommitMap clock logOutput = Inr parsed"
  shows "keyed parsed"
proof -
  let ?recs = "retainedRecords clock 0
      (filter (\<lambda>line. trim line \<noteq> []) (splitOn (CHR 0x0A) (trim logOutput)))"
  from assms parseGitLogToCommitMap_retained [of clock logOutput]
  have p: "parsed = foldl (\<lambda>m node. mapSet m (hash node) node) [] ?recs" by simp
  have "keyed ([] :: CommitMap)" by (simp add: keyed_def)
  moreover have "\<forall>r\<in>set ?recs. hash r \<noteq> []" using retainedRecords_hash by blast
  ultimately show ?thesis unfolding p by (rule keyed_store)
qed

lemma keyed_entries:
  "keyed acc \<Longrightarrow> keyed new \<Longrightarrow>
   keyed (foldl (\<lambda>combined entry. mapSet combined (fst entry) (snd entry)) acc new)"
proof (induction new arbitrary: acc)
  case Nil
  then show ?case by simp
next
  case (Cons e es)
  from Cons.prems(2) have e: "hash (snd e) = fst e" "fst e \<noteq> []" and es: "keyed es"
    by (simp_all add: keyed_def)
  from Cons.prems(1) e have "keyed (mapSet acc (fst e) (snd e))" by (simp add: keyed_mapSet)
  from Cons.IH [OF this es] show ?case by simp
qed

lemma keyed_nodes:
  "keyed acc \<Longrightarrow> \<forall>n\<in>set nodes. n_hash n \<noteq> [] \<Longrightarrow>
   keyed (foldl (\<lambda>combined node.
                   if mapHas combined (n_hash node) then combined
                   else mapSet combined (n_hash node) (commitOfNode node))
                acc nodes)"
proof (induction nodes arbitrary: acc)
  case Nil
  then show ?case by simp
next
  case (Cons n ns)
  have "keyed (mapSet acc (n_hash n) (commitOfNode n))"
    using Cons.prems by (intro keyed_mapSet) (simp_all add: commitOfNode_def)
  with Cons show ?case by simp
qed

lemma keyed_combine:
  "keyed new \<Longrightarrow> \<forall>n\<in>set nodes. n_hash n \<noteq> [] \<Longrightarrow> keyed (combineCommits new nodes)"
  unfolding combineCommits_def
  by (intro keyed_nodes keyed_entries) (simp_all add: keyed_def)

lemma enforce_bound: "keyed m \<Longrightarrow> mapSize (enforceCommitLimit m) \<le> BRANCH_GRAPH_MAX_COMMITS"
  unfolding enforceCommitLimit_def
  by (rule enforceCommitLimitAt_bound) (rule keyed_keys)

lemma boundedGraph_build:
  assumes "keyed m" and "mapSize m \<le> BRANCH_GRAPH_MAX_COMMITS"
  shows "boundedGraph (buildBranchGraphFromCommitMap m branchSummary recorded)"
proof -
  have "n_hash n \<noteq> []" if "n \<in> set (map dagNodeOf (mapValues m))" for n
    using that assms(1) by (auto simp: keyed_def mapValues_def dagNodeOf_def)
  with assms(2) show ?thesis
    by (simp add: boundedGraph_def buildBranchGraphFromCommitMap_def Let_def
        mapValues_def mapSize_def)
qed

lemma boundedGraph_empty: "boundedGraph emptyGraph"
  by (simp add: boundedGraph_def emptyGraph_def)

lemma boundedGraph_full: "boundedGraph (buildFullBranchGraph git clock recorded)"
proof (cases "logAll git")
  case (Inl e)
  then show ?thesis by (simp add: buildFullBranchGraph_def boundedGraph_empty)
next
  case log: (Inr logOutput)
  show ?thesis
  proof (cases "parseGitLogToCommitMap clock logOutput")
    case (Inl e)
    with log show ?thesis by (simp add: buildFullBranchGraph_def boundedGraph_empty)
  next
    case parsed: (Inr parsed)
    from keyed_parsed [OF parsed] have k: "keyed (enforceCommitLimit parsed)"
      and b: "mapSize (enforceCommitLimit parsed) \<le> BRANCH_GRAPH_MAX_COMMITS"
      by (simp_all add: keyed_enforce enforce_bound)
    show ?thesis
    proof (cases "branchQuery git")
      case (Inl e)
      with log parsed show ?thesis
        by (simp add: buildFullBranchGraph_def Let_def boundedGraph_empty)
    next
      case (Inr branchSummary)
      with log parsed boundedGraph_build [OF k b, of branchSummary recorded] show ?thesis
        by (simp add: buildFullBranchGraph_def Let_def boundedGraph_def)
    qed
  qed
qed

lemma boundedGraph_incremental:
  assumes "boundedGraph baseGraph"
    and "buildBranchGraphIncrementally git clock recorded baseGraph baseHash headHash
           = Inr (Some g)"
  shows "boundedGraph g"
proof -
  from assms(2) obtain dag logOutput branchSummary newCommits where
    d: "g_dag baseGraph = Some dag" and l: "logRange git baseHash headHash = Inr logOutput"
    and b: "branchQuery git = Inr branchSummary"
    and p: "parseGitLogToCommitMap clock logOutput = Inr newCommits"
    by (auto simp: buildBranchGraphIncrementally_def split: option.splits sum.splits)
  let ?combined = "combineCommits newCommits (d_nodes dag)"
  from assms(1) d have nodes: "\<forall>n\<in>set (d_nodes dag). n_hash n \<noteq> []"
    by (simp add: boundedGraph_def)
  from keyed_parsed [OF p] nodes have k: "keyed ?combined" by (rule keyed_combine)
  show ?thesis
  proof (cases "mapSize ?combined = 0")
    case True
    with assms(2) d l b p have "g_dag g = g_dag baseGraph"
      by (auto simp: buildBranchGraphIncrementally_def Let_def)
    with assms(1) show ?thesis by (simp add: boundedGraph_def)
  next
    case False
    with assms(2) d l b p
    have "g = buildBranchGraphFromCommitMap (enforceCommitLimit ?combined) branchSummary recorded"
      by (auto simp: buildBranchGraphIncrementally_def Let_def)
    with k show ?thesis by (simp add: boundedGraph_build keyed_enforce enforce_bound)
  qed
qed

lemma boundedStorage_load:
  "boundedStorage storage \<Longrightarrow> loadBranchGraphFromStorage storage h = Some g \<Longrightarrow> boundedGraph g"
  by (auto simp: boundedStorage_def loadBranchGraphFromStorage_def mapGet_def mapValues_def
      split: option.splits if_splits dest!: map_of_SomeD)

lemma boundedStorage_save:
  "boundedStorage storage \<Longrightarrow> boundedGraph g \<Longrightarrow>
   boundedStorage (saveBranchGraphToStorage storage h g)"
  using mapSet_subset
  by (fastforce simp: boundedStorage_def saveBranchGraphToStorage_def mapValues_def
      split: option.splits)

lemma boundedGraph_candidates:
  "boundedStorage storage \<Longrightarrow>
   tryCandidates git clock recorded storage headHash candidates = Inr (Some g) \<Longrightarrow>
   boundedGraph g"
proof (induction candidates)
  case Nil
  then show ?case by simp
next
  case (Cons c cs)
  show ?case
  proof (cases "c = [] \<or> c = headHash")
    case True
    with Cons show ?thesis by simp
  next
    case False
    show ?thesis
    proof (cases "loadBranchGraphFromStorage storage c")
      case None
      with False Cons show ?thesis by simp
    next
      case (Some baseGraph)
      from boundedStorage_load [OF Cons.prems(1) Some] have bb: "boundedGraph baseGraph" .
      show ?thesis
      proof (cases "g_dag baseGraph = None \<or> \<not> isAncestor git c headHash")
        case True
        with False Some Cons show ?thesis by (auto split: if_splits)
      next
        case go: False
        show ?thesis
        proof (cases "buildBranchGraphIncrementally git clock recorded baseGraph c headHash")
          case (Inl e)
          with False Some go Cons.prems(2) show ?thesis by auto
        next
          case (Inr r)
          show ?thesis
          proof (cases r)
            case None
            with Inr False Some go Cons show ?thesis by auto
          next
            case inc: (Some incremental)
            with Inr False Some go Cons.prems(2) have "incremental = g" by auto
            with Inr inc boundedGraph_incremental [OF bb] show ?thesis by simp
          qed
        qed
      qed
    qed
  qed
qed

lemma boundedGraph_tryBuild:
  "boundedStorage storage \<Longrightarrow>
   tryBuildIncrementalBranchGraph git clock recorded storage headHash = Inr (Some g) \<Longrightarrow>
   boundedGraph g"
  by (auto simp: tryBuildIncrementalBranchGraph_def boundedGraph_candidates
      split: option.splits if_splits)

lemma getBranchGraph_bounded:
  assumes st: "boundedStorage storage"
    and ca: "\<forall>c. cached = Some c \<longrightarrow> boundedGraph c"
    and run: "getBranchGraph forceRefresh cached gitOpt storage clock recorded = Inr (g, storage')"
  shows "boundedGraph g \<and> boundedStorage storage'"
proof (cases "\<not> forceRefresh \<and> cached \<noteq> None")
  case True
  with run ca st show ?thesis by (auto simp: getBranchGraph_def)
next
  case False
  with run obtain git where git: "gitOpt = Some git"
    by (auto simp: getBranchGraph_def split: option.splits)
  define headHash where "headHash = (case revparseHead git of Inl e \<Rightarrow> [] | Inr h \<Rightarrow> trim h)"
  define persisted where "persisted = (if \<not> forceRefresh \<and> headHash \<noteq> []
      then loadBranchGraphFromStorage storage headHash else None)"
  define attempt where "attempt = (if \<not> forceRefresh \<and> headHash \<noteq> []
      then tryBuildIncrementalBranchGraph git clock recorded storage headHash else Inr None)"
  have unfold: "getBranchGraph forceRefresh cached gitOpt storage clock recorded =
      (case persisted of
         Some graph \<Rightarrow> Inr (graph, storage)
       | None \<Rightarrow>
      (case attempt of
         Inl e \<Rightarrow> Inl e
       | Inr (Some incrementalGraph) \<Rightarrow>
           Inr (incrementalGraph, saveBranchGraphToStorage storage headHash incrementalGraph)
       | Inr None \<Rightarrow>
           (let fullGraph = buildFullBranchGraph git clock recorded
            in Inr (fullGraph, if headHash \<noteq> []
                               then saveBranchGraphToStorage storage headHash fullGraph
                               else storage))))"
    unfolding getBranchGraph_def Let_def headHash_def persisted_def attempt_def
    using False git by auto
  show ?thesis
  proof (cases persisted)
    case (Some graph)
    then have "loadBranchGraphFromStorage storage headHash = Some graph"
      by (simp add: persisted_def split: if_splits)
    from boundedStorage_load [OF st this] Some run st show ?thesis
      by (simp add: unfold)
  next
    case None
    show ?thesis
    proof (cases attempt)
      case (Inl e)
      with None run show ?thesis by (simp add: unfold)
    next
      case (Inr r)
      show ?thesis
      proof (cases r)
        case inc: (Some incremental)
        with Inr have "tryBuildIncrementalBranchGraph git clock recorded storage headHash
            = Inr (Some incremental)"
          by (simp add: attempt_def split: if_splits)
        from boundedGraph_tryBuild [OF st this] have bi: "boundedGraph incremental" .
        from None Inr inc run have "g = incremental"
          "storage' = saveBranchGraphToStorage storage headHash incremental"
          by (auto simp: unfold)
        with bi st show ?thesis by (simp add: boundedStorage_save)
      next
        case no: None
        let ?full = "buildFullBranchGraph git clock recorded"
        from None Inr no run have "g = ?full"
          "storage' = (if headHash \<noteq> [] then saveBranchGraphToStorage storage headHash ?full
                       else storage)"
          by (auto simp: unfold Let_def)
        with st boundedGraph_full [of git clock recorded] show ?thesis
          by (simp add: boundedStorage_save)
      qed
    qed
  qed
qed

lemma five_eval:
  "parseGitLogToCommitMap (\<lambda>k. 0) fiveLog = Inr fiveCommits"
  "mapSize fiveCommits = 5"
  "\<not> isl (getBranchGraph False None (Some gitAtC2) (Some storageAtC1) (\<lambda>k. 0) None)"
  "boundedStorage (Some storageAtC1)"
  by code_simp+

section \<open>Properties of the scans of \<open>determinePath\<close>\<close>

lemma keepsBinding_refl: "keepsBinding v v"
  by (simp add: keepsBinding_def)

lemma keepsBinding_trans: "keepsBinding a b \<Longrightarrow> keepsBinding b c \<Longrightarrow> keepsBinding a c"
  by (auto simp: keepsBinding_def)

lemma keepsBinding_addToBranch: "keepsBinding v (addToBranch v b x)"
  by (simp add: keepsBinding_def addToBranch_def)

lemma keepsBinding_register: "keepsBinding v (registerUnavailablePoint v x c b)"
  by (simp add: keepsBinding_def registerUnavailablePoint_def)

lemma keepsBinding_processed: "keepsBinding v (registerParentProcessed v)"
  by (simp add: keepsBinding_def registerParentProcessed_def)

lemma frame_refl: "frame st st"
  by (simp add: frame_def keepsBinding_refl)

lemma frame_trans: "frame a b \<Longrightarrow> frame b c \<Longrightarrow> frame a c"
  unfolding frame_def by (metis keepsBinding_trans)

lemma map_update_same: "f y = f (xs ! i) \<Longrightarrow> map f (xs[i := y]) = map f xs"
  by (induction xs arbitrary: i) (auto split: nat.splits)

lemma frame_addLine: "frame st (addLine b p1 p2 c l st)"
  by (simp add: frame_def addLine_def map_update_same keepsBinding_refl)

lemma frame_updVertex:
  assumes "\<And>v. keepsBinding v (f v)"
  shows "frame st (updVertex i f st)"
proof -
  have "keepsBinding (vertices st ! j) ((vertices st)[i := f (vertices st ! i)] ! j)"
    if "j < length (vertices st)" for j
  proof (cases "i = j")
    case True
    with that assms show ?thesis by simp
  next
    case False
    then show ?thesis by (simp add: keepsBinding_refl)
  qed
  then show ?thesis by (simp add: frame_def updVertex_def)
qed

lemma mergeScan_frame: "frame st (mergeScan n i vertex parent parentBranch lastPoint st)"
proof (induction n i vertex parent parentBranch lastPoint st rule: mergeScan.induct)
  case (1 n i vertex parent parentBranch lastPoint st)
  show ?case
  proof (cases "i < n")
    case False
    then show ?thesis by (subst mergeScan.simps) (simp add: frame_refl)
  next
    case True
    define curVertex where "curVertex = vertices st ! i"
    define existingPoint where
      "existingPoint = getPointConnectingTo curVertex (Some (V parent)) parentBranch"
    define found where "found = (existingPoint \<noteq> None \<or> i = parent)"
    define curPoint where
      "curPoint = (case existingPoint of Some pt \<Rightarrow> pt
                   | None \<Rightarrow> if i = parent then getPoint curVertex else getNextPoint curVertex)"
    define lockedFirst where
      "lockedFirst = (if \<not> found \<and> i \<noteq> parent then p_x lastPoint < p_x curPoint else True)"
    define st1 where
      "st1 = addLine parentBranch lastPoint curPoint (v_isCommitted (vertices st ! vertex))
               lockedFirst st"
    define st2 where
      "st2 = updVertex i (\<lambda>v. registerUnavailablePoint v (p_x curPoint) (Some (V parent))
               parentBranch) st1"
    have eq: "mergeScan n i vertex parent parentBranch lastPoint st =
        (if found then updVertex vertex registerParentProcessed st2
         else mergeScan n (i + 1) vertex parent parentBranch curPoint st2)"
      unfolding curVertex_def existingPoint_def found_def curPoint_def
        lockedFirst_def st1_def st2_def
      by (subst mergeScan.simps) (simp only: Let_def \<open>i < n\<close> if_True)
    have f1: "frame st st1" unfolding st1_def by (rule frame_addLine)
    have f2: "frame st1 st2" unfolding st2_def
      by (rule frame_updVertex) (rule keepsBinding_register)
    have f02: "frame st st2" using f1 f2 by (rule frame_trans)
    show ?thesis
    proof (cases found)
      case True
      have "frame st2 (updVertex vertex registerParentProcessed st2)"
        by (rule frame_updVertex) (rule keepsBinding_processed)
      with f02 True eq show ?thesis by (metis frame_trans)
    next
      case False
      have "frame st2 (mergeScan n (i + 1) vertex parent parentBranch curPoint st2)"
        using "1.IH" [OF \<open>i < n\<close> curVertex_def existingPoint_def found_def curPoint_def
            lockedFirst_def st1_def st2_def False] .
      with f02 False eq show ?thesis by (metis frame_trans)
    qed
  qed
qed

lemma normalScan_frame:
  "normalScan n i vertex parentVertex branch lastPoint st = (i', vertex', parentVertex', st')
     \<Longrightarrow> frame st st' \<and> i \<le> i'"
proof (induction n i vertex parentVertex branch lastPoint st
    arbitrary: i' vertex' parentVertex' st' rule: normalScan.induct)
  case (1 n i vertex parentVertex branch lastPoint st)
  show ?case
  proof (cases "i < n")
    case False
    with "1.prems" show ?thesis by (subst (asm) normalScan.simps) (simp add: frame_refl)
  next
    case True
    define curVertex where "curVertex = vertices st ! i"
    define curPoint where
      "curPoint = (if parentVertex = Some (V i) \<and> \<not> isNotOnBranch curVertex
                   then getPoint curVertex else getNextPoint curVertex)"
    define lockedFirst where "lockedFirst = (p_x lastPoint < p_x curPoint)"
    define st1 where
      "st1 = addLine branch lastPoint curPoint (v_isCommitted (vertices st ! vertex))
               lockedFirst st"
    define st2 where
      "st2 = updVertex i (\<lambda>v. registerUnavailablePoint v (p_x curPoint) parentVertex branch) st1"
    define st3 where "st3 = updVertex vertex registerParentProcessed st2"
    define pOnBranch where "pOnBranch = (\<not> isNotOnBranch (vertices st3 ! i))"
    define st4 where "st4 = updVertex i (\<lambda>v. addToBranch v branch (p_x curPoint)) st3"
    define parentVertex2 where "parentVertex2 = getNextParent (vertices st4 ! i)"
    have eq: "normalScan n i vertex parentVertex branch lastPoint st =
        (if parentVertex = Some (V i) then
           (if parentVertex2 = None \<or> pOnBranch then (i, i, parentVertex2, st4)
            else normalScan n (i + 1) i parentVertex2 branch curPoint st4)
         else normalScan n (i + 1) vertex parentVertex branch curPoint st2)"
      unfolding curVertex_def curPoint_def lockedFirst_def st1_def st2_def
        st3_def pOnBranch_def st4_def parentVertex2_def
      by (subst normalScan.simps) (simp only: Let_def \<open>i < n\<close> if_True)
    have f1: "frame st st1" unfolding st1_def by (rule frame_addLine)
    have f2: "frame st1 st2" unfolding st2_def
      by (rule frame_updVertex) (rule keepsBinding_register)
    have f02: "frame st st2" using f1 f2 by (rule frame_trans)
    have f3: "frame st2 st3" unfolding st3_def
      by (rule frame_updVertex) (rule keepsBinding_processed)
    have f4: "frame st3 st4" unfolding st4_def
      by (rule frame_updVertex) (rule keepsBinding_addToBranch)
    have f04: "frame st st4" using f02 f3 f4 by (metis frame_trans)
    show ?thesis
    proof (cases "parentVertex = Some (V i)")
      case False
      with "1.prems" eq
      have r: "normalScan n (i + 1) vertex parentVertex branch curPoint st2
                 = (i', vertex', parentVertex', st')" by simp
      from "1.IH"(2) [OF \<open>i < n\<close> curVertex_def curPoint_def lockedFirst_def st1_def st2_def
          False r]
      have "frame st2 st' \<and> i + 1 \<le> i'" .
      with f02 show ?thesis by (metis frame_trans add_leD1)
    next
      case pv: True
      show ?thesis
      proof (cases "parentVertex2 = None \<or> pOnBranch")
        case True
        with "1.prems" eq pv have "i' = i" "st' = st4" by simp_all
        with f04 show ?thesis by simp
      next
        case False
        with "1.prems" eq pv
        have r: "normalScan n (i + 1) i parentVertex2 branch curPoint st4
                   = (i', vertex', parentVertex', st')" by simp
        from "1.IH"(1) [OF \<open>i < n\<close> curVertex_def curPoint_def lockedFirst_def st1_def st2_def
            pv st3_def pOnBranch_def st4_def parentVertex2_def False r]
        have "frame st4 st' \<and> i + 1 \<le> i'" .
        with f04 show ?thesis by (metis frame_trans add_leD1)
      qed
    qed
  qed
qed

lemma mergePath_frame: "frame st (mergePath startAt parent st)"
  unfolding mergePath_def by (rule mergeScan_frame)

lemma frame_bound:
  "frame st st' \<Longrightarrow> j < length (vertices st) \<Longrightarrow> \<not> isNotOnBranch (vertices st ! j)
     \<Longrightarrow> \<not> isNotOnBranch (vertices st' ! j)"
  by (auto simp: frame_def keepsBinding_def isNotOnBranch_def)

lemma map_update_last: "length xs = Suc k \<Longrightarrow> xs[k := y] = butlast xs @ [y]"
  by (induction xs arbitrary: k rule: rev_induct) (auto simp: list_update_append)

lemma normalPath_result:
  assumes col: "getAvailableColour startAt (availableColors st) = (c, colors)"
  shows "\<exists>i. startAt + 1 \<le> i
     \<and> availableColors (normalPath startAt st) = colors[c := i]
     \<and> map b_end (branchHeap (normalPath startAt st)) = map b_end (branchHeap st) @ [i]
     \<and> map b_colorIndex (branchHeap (normalPath startAt st))
         = map b_colorIndex (branchHeap st) @ [c]
     \<and> graphBranches (normalPath startAt st) = graphBranches st @ [length (branchHeap st)]
     \<and> length (vertices (normalPath startAt st)) = length (vertices st)
     \<and> (\<forall>j<length (vertices st).
           keepsBinding (vertices st ! j) (vertices (normalPath startAt st) ! j))
     \<and> (startAt < length (vertices st)
           \<longrightarrow> \<not> isNotOnBranch (vertices (normalPath startAt st) ! startAt))"
proof -
  define n where "n = length (vertices st)"
  define parentVertex where "parentVertex = getNextParent (vertices st ! startAt)"
  define lastPoint where "lastPoint = lastPointOf (vertices st ! startAt)"
  define branch where "branch = length (branchHeap st)"
  define st1 where
    "st1 = st \<lparr> branchHeap := branchHeap st @ [newBranch c], availableColors := colors \<rparr>"
  define st2 where "st2 = updVertex startAt (\<lambda>v. addToBranch v branch (p_x lastPoint)) st1"
  define st3 where
    "st3 = updVertex startAt (\<lambda>v. registerUnavailablePoint v (p_x lastPoint)
             (Some (V startAt)) branch) st2"
  obtain i vertex' parentVertex' st4 where scan:
    "normalScan n (startAt + 1) startAt parentVertex branch lastPoint st3
       = (i, vertex', parentVertex', st4)"
    by (metis prod_cases4)
  define st5 where
    "st5 = (if i = n \<and> parentVertex' = Some NullVertex
            then updVertex vertex' registerParentProcessed st4 else st4)"
  define st6 where "st6 = setEnd branch i st5"
  have res: "normalPath startAt st =
      st6 \<lparr> graphBranches := graphBranches st6 @ [branch],
            availableColors := (availableColors st6)[c := i] \<rparr>"
    unfolding normalPath_def Let_def col
    using scan
    by (simp add: n_def parentVertex_def lastPoint_def branch_def st1_def st2_def st3_def
        st5_def st6_def)
  have f12: "frame st1 st2" unfolding st2_def
    by (rule frame_updVertex) (rule keepsBinding_addToBranch)
  have f23: "frame st2 st3" unfolding st3_def
    by (rule frame_updVertex) (rule keepsBinding_register)
  from normalScan_frame [OF scan] have f34: "frame st3 st4" and le: "startAt + 1 \<le> i"
    by simp_all
  have f45: "frame st4 st5" unfolding st5_def
    by (auto intro: frame_refl frame_updVertex keepsBinding_processed)
  have f25: "frame st2 st5" using f23 f34 f45 by (metis frame_trans)
  have f15: "frame st1 st5" using f12 f25 by (rule frame_trans)
  have v1: "vertices st1 = vertices st" by (simp add: st1_def)
  have v6: "vertices st6 = vertices st5" by (simp add: st6_def setEnd_def)
  have ends5: "map b_end (branchHeap st5) = map b_end (branchHeap st) @ [0]"
    using f15 by (simp add: frame_def st1_def newBranch_def)
  have cols5: "map b_colorIndex (branchHeap st5) = map b_colorIndex (branchHeap st) @ [c]"
    using f15 by (simp add: frame_def st1_def newBranch_def)
  have len5: "length (branchHeap st5) = Suc branch"
    using ends5 unfolding branch_def by (metis length_append_singleton length_map)
  have ends6: "map b_end (branchHeap st6) = map b_end (branchHeap st) @ [i]"
  proof -
    have "map b_end (branchHeap st6) = (map b_end (branchHeap st5))[branch := i]"
      by (simp add: st6_def setEnd_def map_update)
    also have "\<dots> = butlast (map b_end (branchHeap st5)) @ [i]"
      using len5 by (intro map_update_last) simp
    finally show ?thesis using ends5 by simp
  qed
  have cols6: "map b_colorIndex (branchHeap st6) = map b_colorIndex (branchHeap st) @ [c]"
    using cols5 by (simp add: st6_def setEnd_def map_update_same)
  have gb: "graphBranches st6 = graphBranches st"
    using f15 by (simp add: st6_def setEnd_def frame_def st1_def)
  have len: "length (vertices st5) = length (vertices st)"
    using f15 v1 by (simp add: frame_def)
  have keep: "keepsBinding (vertices st ! j) (vertices st5 ! j)" if "j < length (vertices st)" for j
    using f15 v1 that by (simp add: frame_def)
  have bound: "\<not> isNotOnBranch (vertices st5 ! startAt)" if "startAt < length (vertices st)"
  proof -
    have l2: "startAt < length (vertices st1)" using that v1 by simp
    then have "\<not> isNotOnBranch (vertices st2 ! startAt)"
      by (simp add: st2_def updVertex_def addToBranch_def isNotOnBranch_def)
    moreover have "startAt < length (vertices st2)"
      using l2 by (simp add: st2_def updVertex_def)
    ultimately show ?thesis using f25 by (metis frame_bound)
  qed
  have ac6: "availableColors st6 = colors"
    using f15 by (simp add: st6_def setEnd_def frame_def st1_def)
  show ?thesis
    unfolding res using le ends6 cols6 gb len keep bound ac6 v6
    by (intro exI [of _ i]) (simp add: branch_def)
qed

section \<open>Properties of the colour slots\<close>

lemma firstSlot_Some:
  "firstSlot s cs = Some i \<Longrightarrow> i < length cs \<and> cs ! i < s \<and> (\<forall>j<i. \<not> cs ! j < s)"
proof (induction cs arbitrary: i)
  case Nil
  then show ?case by simp
next
  case (Cons c cs)
  show ?case
  proof (cases "c < s")
    case True
    with Cons.prems show ?thesis by simp
  next
    case False
    with Cons.prems obtain k where k: "firstSlot s cs = Some k" "i = Suc k" by auto
    from Cons.IH [OF k(1)] have ih: "k < length cs" "cs ! k < s" "\<forall>j<k. \<not> cs ! j < s"
      by simp_all
    have "\<not> (c # cs) ! j < s" if "j < Suc k" for j
      using that False ih(3) by (cases j) auto
    with ih k show ?thesis by simp
  qed
qed

lemma firstSlot_None: "firstSlot s cs = None \<Longrightarrow> \<forall>j<length cs. \<not> cs ! j < s"
proof (induction cs)
  case Nil
  then show ?case by simp
next
  case (Cons c cs)
  then have c: "\<not> c < s" and n: "firstSlot s cs = None" by (auto split: if_splits)
  from Cons.IH [OF n] c show ?case by (auto simp: nth_Cons split: nat.splits)
qed

lemma getAvailableColour_spec:
  assumes "getAvailableColour s cs = (c, cs')"
  shows "(c < length cs \<and> cs' = cs \<and> cs ! c < s \<and> (\<forall>j<c. \<not> cs ! j < s))
       \<or> (c = length cs \<and> cs' = cs @ [0] \<and> (\<forall>j<length cs. \<not> cs ! j < s))"
proof (cases "firstSlot s cs")
  case None
  with assms firstSlot_None [OF None] show ?thesis by (simp add: getAvailableColour_def)
next
  case (Some i)
  with assms firstSlot_Some [OF Some] show ?thesis by (simp add: getAvailableColour_def)
qed

lemma colourInv_initial: "colourInv (initialLayout vs)"
  by (simp add: colourInv_def initialLayout_def)

lemma colour_reuse:
  assumes "colourInv st" and "getAvailableColour s (availableColors st) = (c, colors)"
    and "b < length (branchHeap st)" and "b_colorIndex (branchHeap st ! b) = c"
  shows "b_end (branchHeap st ! b) < s"
proof -
  from assms(1,3,4) have c: "c < length (availableColors st)"
    and e: "b_end (branchHeap st ! b) \<le> availableColors st ! c"
    by (auto simp: colourInv_def)
  from getAvailableColour_spec [OF assms(2)] c have "availableColors st ! c < s" by auto
  with e show ?thesis by simp
qed

lemma colourInv_frame: "colourInv st \<Longrightarrow> frame st st' \<Longrightarrow> colourInv st'"
proof -
  assume inv: "colourInv st" and f: "frame st st'"
  from f have ac: "availableColors st' = availableColors st"
    and me: "map b_end (branchHeap st') = map b_end (branchHeap st)"
    and mc: "map b_colorIndex (branchHeap st') = map b_colorIndex (branchHeap st)"
    by (simp_all add: frame_def)
  from me have len: "length (branchHeap st') = length (branchHeap st)"
    by (metis length_map)
  have "b_end (branchHeap st' ! b) = b_end (branchHeap st ! b)
      \<and> b_colorIndex (branchHeap st' ! b) = b_colorIndex (branchHeap st ! b)"
    if "b < length (branchHeap st)" for b
    using that len me mc by (metis nth_map)
  with inv len ac show ?thesis by (simp add: colourInv_def)
qed

lemma colourInv_normalPath:
  assumes inv: "colourInv st"
  shows "colourInv (normalPath startAt st)"
proof -
  obtain c colors where col: "getAvailableColour startAt (availableColors st) = (c, colors)"
    by (cases "getAvailableColour startAt (availableColors st)") auto
  let ?st' = "normalPath startAt st"
  let ?H = "branchHeap st" and ?H' = "branchHeap ?st'"
  from normalPath_result [OF col] obtain i where r:
    "startAt + 1 \<le> i" "availableColors ?st' = colors[c := i]"
    "map b_end ?H' = map b_end ?H @ [i]"
    "map b_colorIndex ?H' = map b_colorIndex ?H @ [c]"
    by blast
  from r(3) have len: "length ?H' = Suc (length ?H)"
    by (metis length_append_singleton length_map)
  note spec = getAvailableColour_spec [OF col]
  from spec have lcol: "length (availableColors st) \<le> length colors" "c < length colors"
    by auto
  have old: "colors ! k = availableColors st ! k" if "k < length (availableColors st)" for k
    using spec that by (auto simp: nth_append)
  have "b_colorIndex (?H' ! b) < length (availableColors ?st')
      \<and> b_end (?H' ! b) \<le> availableColors ?st' ! b_colorIndex (?H' ! b)"
    if b: "b < length ?H'" for b
  proof (cases "b < length ?H")
    case True
    have e: "b_end (?H' ! b) = b_end (?H ! b)"
      using True b r(3) by (metis nth_map nth_append length_map)
    have k: "b_colorIndex (?H' ! b) = b_colorIndex (?H ! b)"
      using True b r(4) by (metis nth_map nth_append length_map)
    let ?cb = "b_colorIndex (?H ! b)"
    from inv True have cb: "?cb < length (availableColors st)"
      and eb: "b_end (?H ! b) \<le> availableColors st ! ?cb"
      by (auto simp: colourInv_def)
    show ?thesis
    proof (cases "?cb = c")
      case True
      with colour_reuse [OF inv col \<open>b < length ?H\<close>] have "b_end (?H ! b) < startAt" by simp
      with r(1) have "b_end (?H ! b) \<le> i" by simp
      with True e k r(2) lcol show ?thesis by simp
    next
      case False
      with e k r(2) cb eb lcol old [OF cb] show ?thesis by simp
    qed
  next
    case False
    with b len have bl: "b = length ?H" by simp
    have e: "b_end (?H' ! b) = i"
      using b r(3) bl by (metis nth_map nth_append_length length_map)
    have k: "b_colorIndex (?H' ! b) = c"
      using b r(4) bl by (metis nth_map nth_append_length length_map)
    from e k r(2) lcol show ?thesis by simp
  qed
  then show ?thesis by (simp add: colourInv_def)
qed

lemma colourInv_determinePath: "colourInv st \<Longrightarrow> colourInv (determinePath startAt st)"
  by (auto simp: determinePath_def colourInv_normalPath
      intro: colourInv_frame mergePath_frame split: option.splits)

lemma normalPath_site:
  "availableColors (normalPath startAt st)
       ! b_colorIndex (branchHeap (normalPath startAt st) ! length (branchHeap st))
     = b_end (branchHeap (normalPath startAt st) ! length (branchHeap st))"
proof -
  obtain c colors where col: "getAvailableColour startAt (availableColors st) = (c, colors)"
    by (cases "getAvailableColour startAt (availableColors st)") auto
  let ?st' = "normalPath startAt st"
  let ?H = "branchHeap st" and ?H' = "branchHeap ?st'"
  from normalPath_result [OF col] obtain i where r:
    "availableColors ?st' = colors[c := i]"
    "map b_end ?H' = map b_end ?H @ [i]"
    "map b_colorIndex ?H' = map b_colorIndex ?H @ [c]"
    by blast
  from r(2) have len: "length ?H < length ?H'"
    by (metis length_append_singleton length_map lessI)
  have e: "b_end (?H' ! length ?H) = i"
    using len r(2) by (metis nth_map nth_append_length length_map)
  have k: "b_colorIndex (?H' ! length ?H) = c"
    using len r(3) by (metis nth_map nth_append_length length_map)
  from getAvailableColour_spec [OF col] have "c < length colors" by auto
  with e k r(1) show ?thesis by simp
qed

lemma slotInv_initial: "slotInv (initialLayout vs)"
  by (simp add: slotInv_def initialLayout_def)

lemma slotInv_frame: "slotInv st \<Longrightarrow> frame st st' \<Longrightarrow> slotInv st'"
proof -
  assume inv: "slotInv st" and f: "frame st st'"
  from f have ac: "availableColors st' = availableColors st"
    and me: "map b_end (branchHeap st') = map b_end (branchHeap st)"
    and mc: "map b_colorIndex (branchHeap st') = map b_colorIndex (branchHeap st)"
    by (simp_all add: frame_def)
  from me have len: "length (branchHeap st') = length (branchHeap st)"
    by (metis length_map)
  have same: "b_end (branchHeap st' ! b) = b_end (branchHeap st ! b)
      \<and> b_colorIndex (branchHeap st' ! b) = b_colorIndex (branchHeap st ! b)"
    if "b < length (branchHeap st)" for b
    using that len me mc by (metis nth_map)
  show ?thesis
    unfolding slotInv_def ac len
  proof (intro allI impI)
    fix c
    assume "c < length (availableColors st)"
    with inv obtain b where "b < length (branchHeap st)"
      "b_colorIndex (branchHeap st ! b) = c" "b_end (branchHeap st ! b) = availableColors st ! c"
      by (auto simp: slotInv_def)
    with same [of b]
    show "\<exists>b<length (branchHeap st). b_colorIndex (branchHeap st' ! b) = c
        \<and> b_end (branchHeap st' ! b) = availableColors st ! c"
      by auto
  qed
qed

lemma slotInv_normalPath:
  assumes inv: "slotInv st"
  shows "slotInv (normalPath startAt st)"
proof -
  obtain c colors where col: "getAvailableColour startAt (availableColors st) = (c, colors)"
    by (cases "getAvailableColour startAt (availableColors st)") auto
  let ?st' = "normalPath startAt st"
  let ?H = "branchHeap st" and ?H' = "branchHeap ?st'"
  from normalPath_result [OF col] obtain i where r:
    "availableColors ?st' = colors[c := i]"
    "map b_end ?H' = map b_end ?H @ [i]"
    "map b_colorIndex ?H' = map b_colorIndex ?H @ [c]"
    by blast
  from r(2) have len: "length ?H' = Suc (length ?H)"
    by (metis length_append_singleton length_map)
  note spec = getAvailableColour_spec [OF col]
  from spec have lcol: "c < length colors" by auto
  have old: "colors ! k = availableColors st ! k" if "k < length (availableColors st)" for k
    using spec that by (auto simp: nth_append)
  have fresh: "k < length (availableColors st)" if "k < length colors" "k \<noteq> c" for k
    using spec that by auto
  have "\<exists>b<length ?H'. b_colorIndex (?H' ! b) = k \<and> b_end (?H' ! b) = availableColors ?st' ! k"
    if k: "k < length (availableColors ?st')" for k
  proof (cases "k = c")
    case True
    have e: "b_end (?H' ! length ?H) = i"
      using len r(2) by (metis nth_map nth_append_length length_map lessI)
    have kk: "b_colorIndex (?H' ! length ?H) = c"
      using len r(3) by (metis nth_map nth_append_length length_map lessI)
    from e kk True r(1) lcol len show ?thesis by (intro exI [of _ "length ?H"]) simp
  next
    case False
    from k r(1) have "k < length colors" by simp
    from fresh [OF this False] have ko: "k < length (availableColors st)" .
    with inv obtain b where b: "b < length ?H" "b_colorIndex (?H ! b) = k"
      "b_end (?H ! b) = availableColors st ! k"
      by (auto simp: slotInv_def)
    have e: "b_end (?H' ! b) = b_end (?H ! b)"
      using b(1) len r(2) by (metis nth_map nth_append length_map less_Suc_eq)
    have kk: "b_colorIndex (?H' ! b) = b_colorIndex (?H ! b)"
      using b(1) len r(3) by (metis nth_map nth_append length_map less_Suc_eq)
    from e kk b False r(1) old [OF ko] len show ?thesis by (intro exI [of _ b]) simp
  qed
  then show ?thesis by (simp add: slotInv_def)
qed

lemma slotInv_determinePath: "slotInv st \<Longrightarrow> slotInv (determinePath startAt st)"
  by (auto simp: determinePath_def slotInv_normalPath
      intro: slotInv_frame mergePath_frame split: option.splits)

section \<open>Properties of the main loop and of the sweep\<close>



lemma determinePath_keeps:
  "length (vertices (determinePath startAt st)) = length (vertices st)
   \<and> (\<forall>j<length (vertices st).
         keepsBinding (vertices st ! j) (vertices (determinePath startAt st) ! j))"
proof (cases "mergeParent st startAt")
  case None
  obtain c colors where col: "getAvailableColour startAt (availableColors st) = (c, colors)"
    by (cases "getAvailableColour startAt (availableColors st)") auto
  from normalPath_result [OF col] None show ?thesis
    by (auto simp: determinePath_def)
next
  case (Some parent)
  with mergePath_frame [of st startAt parent] show ?thesis
    by (simp add: determinePath_def frame_def)
qed

lemma keepsBinding_bound:
  "keepsBinding v v' \<Longrightarrow> \<not> isNotOnBranch v \<Longrightarrow> \<not> isNotOnBranch v'"
  by (auto simp: keepsBinding_def isNotOnBranch_def)

lemma mainLoop_result:
  "mainLoop fuel i st = Some st' \<Longrightarrow>
   \<forall>j<i. j < length (vertices st) \<longrightarrow> \<not> isNotOnBranch (vertices st ! j) \<Longrightarrow>
   length (vertices st') = length (vertices st)
   \<and> allBound st'
   \<and> (\<forall>j<length (vertices st). keepsBinding (vertices st ! j) (vertices st' ! j))"
proof (induction fuel arbitrary: i st)
  case 0
  then show ?case by simp
next
  case (Suc fuel)
  show ?case
  proof (cases "i < length (vertices st)")
    case False
    with Suc.prems have "st' = st" by simp
    moreover have "allBound st" using False Suc.prems(2) by (auto simp: allBound_def)
    ultimately show ?thesis by (simp add: keepsBinding_refl)
  next
    case True
    show ?thesis
    proof (cases "getNextParent (vertices st ! i) \<noteq> None \<or> isNotOnBranch (vertices st ! i)")
      case guard: True
      let ?st1 = "determinePath i st"
      from Suc.prems(1) True guard have run: "mainLoop fuel i ?st1 = Some st'" by simp
      note k = determinePath_keeps [of i st]
      have pre: "\<forall>j<i. j < length (vertices ?st1) \<longrightarrow> \<not> isNotOnBranch (vertices ?st1 ! j)"
        using Suc.prems(2) k by (metis keepsBinding_bound)
      from Suc.IH [OF run pre] k show ?thesis by (metis keepsBinding_trans)
    next
      case guard: False
      from Suc.prems(1) True guard have run: "mainLoop fuel (i + 1) st = Some st'" by simp
      have pre: "\<forall>j<i + 1. j < length (vertices st) \<longrightarrow> \<not> isNotOnBranch (vertices st ! j)"
        using Suc.prems(2) guard by (metis Suc_eq_plus1 less_Suc_eq)
      from Suc.IH [OF run pre] show ?thesis .
    qed
  qed
qed

lemma sweepRow_bound: "\<not> isNotOnBranch (vertices st ! i) \<Longrightarrow> sweepRow st i = st"
  by (simp add: sweepRow_def)

lemma sweep_fold_bound:
  "\<forall>j\<in>set rows. \<not> isNotOnBranch (vertices st ! j) \<Longrightarrow> foldl sweepRow st rows = st"
  by (induction rows) (simp_all add: sweepRow_bound)

lemma completionSweep_allBound: "allBound st \<Longrightarrow> completionSweep st = st"
  unfolding completionSweep_def by (rule sweep_fold_bound) (simp add: allBound_def)

lemma mainLoop_colourInv:
  "mainLoop fuel i st = Some st' \<Longrightarrow> colourInv st \<Longrightarrow> colourInv st'"
proof (induction fuel arbitrary: i st)
  case 0
  then show ?case by simp
next
  case (Suc fuel)
  then show ?case by (auto split: if_splits intro: colourInv_determinePath)
qed

lemma mainLoop_slotInv:
  "mainLoop fuel i st = Some st' \<Longrightarrow> slotInv st \<Longrightarrow> slotInv st'"
proof (induction fuel arbitrary: i st)
  case 0
  then show ?case by simp
next
  case (Suc fuel)
  then show ?case by (auto split: if_splits intro: slotInv_determinePath)
qed

section \<open>A run of the main loop that does not end\<close>






section \<open>Termination of the main loop on topologically ordered rows\<close>





























section \<open>Evaluations of the layout on the sample inputs\<close>

lemma chain_eval:
  "getAvailableColour 3 (availableColors chainStep) = (0, [2])"
  "0 < length (branchHeap chainStep)"
  "b_colorIndex (branchHeap chainStep ! 0) = 0"
  "mainLoop 20 0 (initialLayout chainVertices) = Some chainResult"
  "chainStep = determinePath 0 (initialLayout chainVertices)"
  "b_end (branchHeap chainStep ! 0) = 2"
  by code_simp+





text \<open>
  The body of the sweep, run on vertices that are not bound (which no main loop leaves
  behind), records \<open>i\<close> in the colour slot of a branch whose end is \<open>i + 1\<close>.
\<close>

lemma sweep_unbound_eval:
  "availableColors (completionSweep oneUnbound)
       ! b_colorIndex (branchHeap (completionSweep oneUnbound) ! 0) = 0"
  "b_end (branchHeap (completionSweep oneUnbound) ! 0) = 1"
  "map b_colorIndex (branchHeap (completionSweep twoUnbound)) = [0, 0]"
  "map b_end (branchHeap (completionSweep twoUnbound)) = [1, 2]"
  by code_simp+

section \<open>Claims about eviction and merge inference\<close>

text \<open>
  Claim C5, as amended. On a commit map with distinct, non-empty keys eviction keeps the
  first \<open>limit\<close> entries of the insertion order: the entries inserted last are the
  ones removed, and the earliest-inserted \<open>MAX_COMMITS\<close> entries remain.
\<close>

theorem eviction_order:
  assumes "distinct (mapKeys commits)" and "[] \<notin> set (mapKeys commits)"
  shows "enforceCommitLimitAt limit commits = take limit commits
       \<and> enforceCommitLimit commits = take BRANCH_GRAPH_MAX_COMMITS commits"
  using assms by (simp add: enforceCommitLimit_def enforceCommitLimitAt_take)

text \<open>The amended claim at a map of three commits and a limit of two.\<close>

theorem eviction_order_witness:
  "enforceCommitLimitAt 2 [(''a'', sampleNode ''a''), (''b'', sampleNode ''b''),
                           (''c'', sampleNode ''c'')]
     = [(''a'', sampleNode ''a''), (''b'', sampleNode ''b'')]"
  using eviction_order [of "[(''a'', sampleNode ''a''), (''b'', sampleNode ''b''),
                            (''c'', sampleNode ''c'')]" 2]
  by (simp add: mapKeys_def)

text \<open>
  Claim C5 as stated fails on a map of 801 commits: the earliest-inserted key survives,
  the latest-inserted key is removed, and the result is not the 800 entries inserted last.
\<close>

theorem eviction_order_counterexample:
  "sampleKey 0 \<in> set (mapKeys (enforceCommitLimit (sampleCommits 801)))
   \<and> sampleKey 800 \<notin> set (mapKeys (enforceCommitLimit (sampleCommits 801)))
   \<and> enforceCommitLimit (sampleCommits 801)
       \<noteq> drop (mapSize (sampleCommits 801) - BRANCH_GRAPH_MAX_COMMITS) (sampleCommits 801)"
proof -
  have e: "enforceCommitLimit (sampleCommits 801) = sampleCommits 800"
    by (simp add: enforceCommitLimit_def BRANCH_GRAPH_MAX_COMMITS_def
        enforceCommitLimitAt_take sampleCommits_distinct sampleCommits_nonempty
        sampleCommits_take)
  have a: "sampleKey 0 \<in> set (mapKeys (sampleCommits 800))"
    by (simp add: sampleCommits_keys)
  have b: "sampleKey 800 \<notin> set (mapKeys (sampleCommits 800))"
    by (auto simp: sampleCommits_keys sampleKey_inj)
  have "sampleKey 800 \<in> set (mapKeys (drop 1 (sampleCommits 801)))"
    by (simp add: sampleCommits_def mapKeys_def drop_map comp_def)
  with b have c: "sampleCommits 800 \<noteq> drop 1 (sampleCommits 801)"
    by metis
  show ?thesis using e a b c
    by (simp add: sampleCommits_size BRANCH_GRAPH_MAX_COMMITS_def)
qed

text \<open>
  Claim C7. Enforcement leaves a map of at most \<open>limit\<close> entries unchanged. Every map
  the normalizer returns comes out of enforcement with at most \<open>limit\<close> entries (for
  any limit, and for the constant 800), and with a limit of 2 and 5 parsed commits the
  snapshot built from the result has exactly 2 nodes. The same bound holds for the map
  that the incremental build combines from parsed commits and cached nodes. So every
  snapshot that \<open>buildFullBranchGraph\<close> returns has at most \<open>MAX_COMMITS\<close> nodes, and
  so has every snapshot that \<open>getBranchGraph\<close> returns or stores, given that the
  snapshots it finds cached and stored are of that kind. No map on these paths has the
  empty string as a key, the one key that the test \<open>!lastKey\<close> of the loop cannot
  remove.
\<close>

theorem eviction_bound:
  "(mapSize commits \<le> limit \<longrightarrow> enforceCommitLimitAt limit commits = commits)
   \<and> (parseGitLogToCommitMap clock logOutput = Inr parsed \<longrightarrow>
        [] \<notin> set (mapKeys parsed)
        \<and> mapSize (enforceCommitLimitAt limit parsed) \<le> limit
        \<and> mapSize (enforceCommitLimit parsed) \<le> BRANCH_GRAPH_MAX_COMMITS
        \<and> (mapSize parsed = 5 \<longrightarrow>
             length (d_nodes (the (g_dag (buildBranchGraphFromCommitMap
                (enforceCommitLimitAt 2 parsed) branchSummary recorded)))) = 2))
   \<and> (parseGitLogToCommitMap clock logOutput = Inr parsed
        \<and> (\<forall>n\<in>set nodes. n_hash n \<noteq> []) \<longrightarrow>
        [] \<notin> set (mapKeys (combineCommits parsed nodes))
        \<and> mapSize (enforceCommitLimit (combineCommits parsed nodes))
             \<le> BRANCH_GRAPH_MAX_COMMITS)
   \<and> boundedGraph (buildFullBranchGraph git clock recorded)
   \<and> (boundedStorage storage \<and> (\<forall>c. cached = Some c \<longrightarrow> boundedGraph c)
        \<and> getBranchGraph forceRefresh cached gitOpt storage clock recorded = Inr (g, storage')
        \<longrightarrow> boundedGraph g \<and> boundedStorage storage')
   \<and> ([] \<notin> set (mapKeys commits) \<longrightarrow>
        mapSize (enforceCommitLimitAt limit commits) \<le> limit
        \<and> mapSize (enforceCommitLimit commits) \<le> BRANCH_GRAPH_MAX_COMMITS)"
proof -
  have 1: "mapSize commits \<le> limit \<longrightarrow> enforceCommitLimitAt limit commits = commits"
    by (simp add: enforceCommitLimitAt_small)
  have 2: "[] \<notin> set (mapKeys parsed)
        \<and> mapSize (enforceCommitLimitAt limit parsed) \<le> limit
        \<and> mapSize (enforceCommitLimit parsed) \<le> BRANCH_GRAPH_MAX_COMMITS
        \<and> (mapSize parsed = 5 \<longrightarrow>
             length (d_nodes (the (g_dag (buildBranchGraphFromCommitMap
                (enforceCommitLimitAt 2 parsed) branchSummary recorded)))) = 2)"
    if p: "parseGitLogToCommitMap clock logOutput = Inr parsed"
  proof -
    from parsed_keys [OF p] have k: "[] \<notin> set (mapKeys parsed)" "distinct (mapKeys parsed)"
      by simp_all
    have "mapSize parsed = 5 \<longrightarrow> length (mapValues (enforceCommitLimitAt 2 parsed)) = 2"
      using k by (simp add: enforceCommitLimitAt_take mapValues_def mapSize_def)
    with k show ?thesis
      by (simp add: enforceCommitLimitAt_bound enforceCommitLimit_def
          buildBranchGraphFromCommitMap_def Let_def)
  qed
  have 3: "[] \<notin> set (mapKeys (combineCommits parsed nodes))
        \<and> mapSize (enforceCommitLimit (combineCommits parsed nodes))
             \<le> BRANCH_GRAPH_MAX_COMMITS"
    if p: "parseGitLogToCommitMap clock logOutput = Inr parsed"
      and n: "\<forall>n\<in>set nodes. n_hash n \<noteq> []"
  proof -
    from keyed_parsed [OF p] n have "keyed (combineCommits parsed nodes)"
      by (rule keyed_combine)
    then show ?thesis by (simp add: keyed_keys enforce_bound)
  qed
  have 4: "boundedGraph (buildFullBranchGraph git clock recorded)"
    by (rule boundedGraph_full)
  have 5: "boundedStorage storage \<and> (\<forall>c. cached = Some c \<longrightarrow> boundedGraph c)
        \<and> getBranchGraph forceRefresh cached gitOpt storage clock recorded = Inr (g, storage')
        \<longrightarrow> boundedGraph g \<and> boundedStorage storage'"
    using getBranchGraph_bounded [of storage cached forceRefresh gitOpt clock recorded g storage']
    by blast
  have 6: "[] \<notin> set (mapKeys commits) \<longrightarrow>
        mapSize (enforceCommitLimitAt limit commits) \<le> limit
        \<and> mapSize (enforceCommitLimit commits) \<le> BRANCH_GRAPH_MAX_COMMITS"
    by (simp add: enforceCommitLimitAt_bound enforceCommitLimit_def)
  from 2 have 2: "parseGitLogToCommitMap clock logOutput = Inr parsed \<longrightarrow>
        [] \<notin> set (mapKeys parsed)
        \<and> mapSize (enforceCommitLimitAt limit parsed) \<le> limit
        \<and> mapSize (enforceCommitLimit parsed) \<le> BRANCH_GRAPH_MAX_COMMITS
        \<and> (mapSize parsed = 5 \<longrightarrow>
             length (d_nodes (the (g_dag (buildBranchGraphFromCommitMap
                (enforceCommitLimitAt 2 parsed) branchSummary recorded)))) = 2)"
    by blast
  from 3 have 3: "parseGitLogToCommitMap clock logOutput = Inr parsed
        \<and> (\<forall>n\<in>set nodes. n_hash n \<noteq> []) \<longrightarrow>
        [] \<notin> set (mapKeys (combineCommits parsed nodes))
        \<and> mapSize (enforceCommitLimit (combineCommits parsed nodes))
             \<le> BRANCH_GRAPH_MAX_COMMITS"
    by blast
  from 1 2 3 4 5 6 show ?thesis by (intro conjI) assumption+
qed

text \<open>
  The claim at a log of five commits with limits 2 and 7, and at the rebuild after the
  head has moved from \<open>c1\<close> to \<open>c2\<close>.
\<close>

theorem eviction_bound_witness:
  "parseGitLogToCommitMap (\<lambda>k. 0) fiveLog = Inr fiveCommits
   \<and> mapSize fiveCommits = 5
   \<and> mapSize (enforceCommitLimitAt 2 fiveCommits) \<le> 2
   \<and> enforceCommitLimitAt 7 fiveCommits = fiveCommits
   \<and> length (d_nodes (the (g_dag (buildBranchGraphFromCommitMap
        (enforceCommitLimitAt 2 fiveCommits) twoBranches None)))) = 2
   \<and> boundedStorage (Some storageAtC1)
   \<and> (case getBranchGraph False None (Some gitAtC2) (Some storageAtC1) (\<lambda>k. 0) None of
         Inl e \<Rightarrow> False
       | Inr (g, storage') \<Rightarrow> boundedGraph g \<and> boundedStorage storage')"
proof -
  let ?run = "getBranchGraph False None (Some gitAtC2) (Some storageAtC1) (\<lambda>k. 0) None"
  from five_eval(3) obtain g storage' where r: "?run = Inr (g, storage')"
    by (cases ?run) auto
  note a = eviction_bound [where commits = fiveCommits and limit = 2 and clock = "\<lambda>k. 0"
      and logOutput = fiveLog and parsed = fiveCommits and branchSummary = twoBranches
      and recorded = None and nodes = "[]" and git = gitAtC2 and storage = "Some storageAtC1"
      and cached = None and forceRefresh = False and gitOpt = "Some gitAtC2" and g = g
      and storage' = storage']
  note b = eviction_bound [where commits = fiveCommits and limit = 7 and clock = "\<lambda>k. 0"
      and logOutput = fiveLog and parsed = fiveCommits and branchSummary = twoBranches
      and recorded = None and nodes = "[]" and git = gitAtC2 and storage = "Some storageAtC1"
      and cached = None and forceRefresh = False and gitOpt = "Some gitAtC2" and g = g
      and storage' = storage']
  from a five_eval(1,2) have 1: "mapSize (enforceCommitLimitAt 2 fiveCommits) \<le> 2"
    "length (d_nodes (the (g_dag (buildBranchGraphFromCommitMap
        (enforceCommitLimitAt 2 fiveCommits) twoBranches None)))) = 2"
    by simp_all
  from b five_eval(2) have 2: "enforceCommitLimitAt 7 fiveCommits = fiveCommits" by simp
  from a five_eval(4) r have 3: "boundedGraph g \<and> boundedStorage storage'" by simp
  from 1 2 3 r five_eval(1,2,4) show ?thesis by simp
qed

text \<open>
  Claim C4, as amended. For a merge commit whose two first parents are in the map: the
  "to" candidates are the names of the commit that the first parent has and the second
  parent lacks, as the specification words them; the "from" candidates are the names of
  the second parent that the first parent lacks or that the commit itself carries (a name
  of both parents that the commit does not carry is no candidate). When both lists are
  non-empty the checked-out branch is preferred among the "to" candidates, the first "from"
  candidate is taken, the two chosen names always differ, and the edge is appended only if
  no edge with that pair is already there; the loop never removes an edge, so the merges
  carry each pair once, at its first occurrence.
\<close>

theorem merge_inference_rule:
  assumes "length (parents c) \<ge> 2"
    and "mapGet commits (parents c ! 0) = Some p1"
    and "mapGet commits (parents c ! 1) = Some p2"
  shows "toBranchCandidates c p1 p2 = spec_toCandidates c p1 p2
    \<and> fromBranchCandidates c p1 p2 =
        filter (\<lambda>b. b \<notin> set (branches p1) \<or> b \<in> set (branches c)) (branches p2)
    \<and> mergeLoopBody commits cur merges (h, c) =
       (if toBranchCandidates c p1 p2 = [] \<or> fromBranchCandidates c p1 p2 = [] then merges
        else if list_ex (samePair (hd (fromBranchCandidates c p1 p2))
                   (if cur \<in> set (toBranchCandidates c p1 p2) then cur
                    else hd (toBranchCandidates c p1 p2))) merges then merges
        else merges @ [\<lparr> m_from = hd (fromBranchCandidates c p1 p2),
                          m_to = (if cur \<in> set (toBranchCandidates c p1 p2) then cur
                                  else hd (toBranchCandidates c p1 p2)),
                          m_commit = h, m_type = ThreeWay,
                          m_description = Some (threeWayDescription
                             (hd (fromBranchCandidates c p1 p2))
                             (if cur \<in> set (toBranchCandidates c p1 p2) then cur
                              else hd (toBranchCandidates c p1 p2))),
                          m_timestamp = Some (timestamp c) \<rparr>])
    \<and> set (fromBranchCandidates c p1 p2) \<inter> set (toBranchCandidates c p1 p2) = {}
    \<and> (\<exists>rest. mergeLoopBody commits cur merges (h, c) = merges @ rest)
    \<and> distinct (map (\<lambda>m. (m_from m, m_to m)) (mergeLoop commits cur))"
proof -
  have 1: "toBranchCandidates c p1 p2 = spec_toCandidates c p1 p2"
    by (simp add: toBranchCandidates_eq spec_toCandidates_def)
  have 2: "distinct (map (\<lambda>m. (m_from m, m_to m)) (mergeLoop commits cur))"
    unfolding mergeLoop_def by (rule mergeLoop_fold_distinct) simp
  show ?thesis
    using 1 2 fromBranchCandidates_eq [of c p1 p2] mergeLoopBody_found [OF assms, of cur merges h]
      from_to_disjoint [of c p1 p2] mergeLoopBody_extends [of commits cur merges "(h, c)"]
    by blast
qed

text \<open>The amended claim at the merge of \<open>feature\<close> into \<open>main\<close>.\<close>

theorem merge_inference_rule_witness:
  "mergeLoopBody [(''c4'', mergeNode), (''c3'', firstParent), (''c2'', featureParent)]
      ''main'' [] (''c4'', mergeNode)
    = [\<lparr> m_from = ''feature'', m_to = ''main'', m_commit = ''c4'', m_type = ThreeWay,
          m_description = Some (threeWayDescription ''feature'' ''main''),
          m_timestamp = Some (Num 4000) \<rparr>]"
  using merge_inference_rule [of mergeNode
      "[(''c4'', mergeNode), (''c3'', firstParent), (''c2'', featureParent)]"
      firstParent featureParent "''main''" "[]" "''c4''"]
  by (simp add: mergeNode_def firstParent_def featureParent_def mapGet_def
      toBranchCandidates_eq fromBranchCandidates_eq)

text \<open>
  Claim C4 as stated fails where a name sits on both parents and not on the merge commit:
  the specification's wording makes \<open>topic\<close> a "from" candidate, the code has none
  and infers no merge.
\<close>

theorem merge_inference_counterexample:
  "toBranchCandidates mergeNode firstParent secondParent = [''main'']
   \<and> spec_fromCandidates mergeNode firstParent secondParent = [''topic'']
   \<and> fromBranchCandidates mergeNode firstParent secondParent = []
   \<and> mergeLoop mergeCommits ''main'' = []"
  by (simp add: toBranchCandidates_eq fromBranchCandidates_eq spec_fromCandidates_def
      spec_toCandidates_def mergeNode_def firstParent_def secondParent_def
      mergeLoop_def mergeCommits_def mergeLoopBody_def mapGet_def Let_def)

text \<open>
  Claim C10, as amended. A merge commit (two or more parents) whose first or second parent
  hash is absent from the commit map makes the loop body return the merges unchanged, and
  merge inference emits no edge that names that commit. The merges list of the snapshot
  names the commit only in entries taken over from the recorded merge history, which are
  three-way entries between local branches; when the recorded history has no entry for
  the commit, or cannot be read, no edge of the snapshot names it.
\<close>

theorem missing_parent_no_merge:
  assumes "distinct (mapKeys commits)"
    and "(h, c) \<in> set commits"
    and "length (parents c) \<ge> 2"
    and "mapGet commits (parents c ! 0) = None \<or> mapGet commits (parents c ! 1) = None"
  shows "mergeLoopBody commits cur merges (h, c) = merges
    \<and> (\<forall>e\<in>set (mergeLoop commits cur). m_commit e \<noteq> h)
    \<and> (\<forall>e\<in>set (g_merges (buildBranchGraphFromCommitMap commits branchSummary recorded)).
          m_commit e = h \<longrightarrow>
            (\<exists>items. recorded = Some items \<and> e \<in> set items \<and> m_type e = ThreeWay
               \<and> m_from e \<in> set (localBranches branchSummary)
               \<and> m_to e \<in> set (localBranches branchSummary)))
    \<and> ((\<forall>items. recorded = Some items \<longrightarrow> (\<forall>e\<in>set items. m_commit e \<noteq> h))
         \<longrightarrow> (\<forall>e\<in>set (g_merges (buildBranchGraphFromCommitMap commits branchSummary
                                      recorded)). m_commit e \<noteq> h))"
proof -
  have uniq: "c' = c" if "(h, c') \<in> set commits" for c'
    using assms(1,2) that by (metis mapKeys_def eq_key_imp_eq_value)
  have loop: "m_commit e \<noteq> h" if "e \<in> set (mergeLoop commits cur')" for e cur'
  proof
    assume eq: "m_commit e = h"
    from that mergeLoop_fold_origin [of e commits cur' "[]" commits]
    obtain entry where en: "entry \<in> set commits" "m_commit e = fst entry"
      "mapGet commits (parents (snd entry) ! 0) \<noteq> None"
      "mapGet commits (parents (snd entry) ! 1) \<noteq> None"
      by (auto simp: mergeLoop_def)
    with eq have "(h, snd entry) \<in> set commits" by (metis prod.collapse)
    then have "snd entry = c" by (rule uniq)
    with en assms(4) show False by auto
  qed
  have snap: "\<exists>items. recorded = Some items \<and> e \<in> set items \<and> m_type e = ThreeWay
               \<and> m_from e \<in> set (localBranches branchSummary)
               \<and> m_to e \<in> set (localBranches branchSummary)"
    if "e \<in> set (g_merges (buildBranchGraphFromCommitMap commits branchSummary recorded))"
      and "m_commit e = h" for e
  proof (cases recorded)
    case None
    with that loop show ?thesis
      by (auto simp: buildBranchGraphFromCommitMap_def Let_def)
  next
    case (Some items)
    with that(1) have "e \<in> set (foldl (historyLoopBody (localBranches branchSummary))
        (mergeLoop commits (if bs_current branchSummary = [] then ''main''
                            else bs_current branchSummary)) items)"
      by (auto simp: buildBranchGraphFromCommitMap_def Let_def)
    from history_fold_origin [OF this] loop that(2) Some show ?thesis by auto
  qed
  have none: "\<forall>e\<in>set (g_merges (buildBranchGraphFromCommitMap commits branchSummary
                                      recorded)). m_commit e \<noteq> h"
    if "\<forall>items. recorded = Some items \<longrightarrow> (\<forall>e\<in>set items. m_commit e \<noteq> h)"
    using that snap by blast
  have 1: "mergeLoopBody commits cur merges (h, c) = merges"
    by (rule mergeLoopBody_missing [OF assms(4)])
  have 2: "\<forall>e\<in>set (mergeLoop commits cur). m_commit e \<noteq> h"
    using loop by blast
  have 3: "\<forall>e\<in>set (g_merges (buildBranchGraphFromCommitMap commits branchSummary recorded)).
          m_commit e = h \<longrightarrow>
            (\<exists>items. recorded = Some items \<and> e \<in> set items \<and> m_type e = ThreeWay
               \<and> m_from e \<in> set (localBranches branchSummary)
               \<and> m_to e \<in> set (localBranches branchSummary))"
    using snap by blast
  from 1 2 3 none show ?thesis by (intro conjI impI) assumption+
qed

text \<open>
  The amended claim at a window that holds the merge and its first parent only, without a
  recorded history.
\<close>

theorem missing_parent_no_merge_witness:
  "mergeLoop truncatedCommits ''main'' = []
   \<and> g_merges (buildBranchGraphFromCommitMap truncatedCommits
        \<lparr> bs_all = [''main''], bs_current = ''main'' \<rparr> None) = []"
proof -
  have "\<forall>e\<in>set (g_merges (buildBranchGraphFromCommitMap truncatedCommits
        \<lparr> bs_all = [''main''], bs_current = ''main'' \<rparr> None)). m_commit e \<noteq> ''c4''"
    using missing_parent_no_merge [of truncatedCommits "''c4''" mergeNode "''main''" "[]"
        "\<lparr> bs_all = [''main''], bs_current = ''main'' \<rparr>" None]
    by (auto simp: truncatedCommits_def mapKeys_def mergeNode_def mapGet_def)
  then show ?thesis
    by (simp add: truncatedCommits_def mergeLoop_def mergeLoopBody_def mergeNode_def
        firstParent_def mapGet_def Let_def buildBranchGraphFromCommitMap_def)
qed

text \<open>
  Claim C10 as stated fails where the recorded merge history holds the merge: the window
  lacks the second parent \<open>c2\<close> of the merge commit \<open>c4\<close>, merge inference emits
  nothing, and the merges list of the snapshot still has the edge for \<open>c4\<close>.
\<close>

theorem missing_parent_counterexample:
  "(''c4'', mergeNode) \<in> set truncatedCommits
   \<and> length (parents mergeNode) \<ge> 2
   \<and> mapGet truncatedCommits (parents mergeNode ! 1) = None
   \<and> mergeLoop truncatedCommits ''main'' = []
   \<and> m_commit recordedMerge = ''c4''
   \<and> g_merges (buildBranchGraphFromCommitMap truncatedCommits featureAndMain
        (Some [recordedMerge])) = [recordedMerge]"
  by (simp add: truncatedCommits_def mergeLoop_def mergeLoopBody_def mergeNode_def
      firstParent_def mapGet_def Let_def buildBranchGraphFromCommitMap_def
      recordedMerge_def featureAndMain_def historyLoopBody_def localBranches_def
      startsWith_def)

section \<open>Claim about the log normalizer\<close>



section \<open>Claims about the cache manager\<close>







section \<open>Claims about the path and branch assignment\<close>



text \<open>
  Claim C3. \<open>getAvailableColour\<close> returns the first slot whose value is below
  \<open>startAt\<close> and otherwise appends a slot. In every state of a layout run (at the
  start, after each \<open>determinePath\<close>, when the main loop returns) every branch object
  keeps its recorded end at or below the value of its colour slot, and the value of every
  slot is the recorded end of a branch object of that colour; so a colour is handed out
  again at row \<open>s\<close> only when the recorded end of every earlier holder is below \<open>s\<close>.
  The normal branch case leaves \<open>availableColors[colorIndex]\<close> equal to the end of the
  branch it creates. When the main loop returns every vertex is bound, so the completion
  sweep creates no branch: every branch of a run comes from the normal branch case.
\<close>

theorem colour_slots:
  "(getAvailableColour s cs = (c, cs') \<longrightarrow>
      (c < length cs \<and> cs' = cs \<and> cs ! c < s \<and> (\<forall>j<c. \<not> cs ! j < s))
      \<or> (c = length cs \<and> cs' = cs @ [0] \<and> (\<forall>j<length cs. \<not> cs ! j < s)))
   \<and> colourInv (initialLayout vs)
   \<and> (colourInv st \<longrightarrow> colourInv (determinePath startAt st))
   \<and> (colourInv st \<and> getAvailableColour s (availableColors st) = (c, colors)
        \<and> b < length (branchHeap st) \<and> b_colorIndex (branchHeap st ! b) = c
        \<longrightarrow> b_end (branchHeap st ! b) < s)
   \<and> availableColors (normalPath startAt st)
        ! b_colorIndex (branchHeap (normalPath startAt st) ! length (branchHeap st))
      = b_end (branchHeap (normalPath startAt st) ! length (branchHeap st))
   \<and> (mainLoop fuel 0 (initialLayout vs) = Some st'
        \<longrightarrow> colourInv st' \<and> completionSweep st' = st')
   \<and> slotInv (initialLayout vs)
   \<and> (slotInv st \<longrightarrow> slotInv (determinePath startAt st))
   \<and> (mainLoop fuel 0 (initialLayout vs) = Some st' \<longrightarrow> slotInv st')"
proof -
  have 1: "getAvailableColour s cs = (c, cs') \<longrightarrow>
      (c < length cs \<and> cs' = cs \<and> cs ! c < s \<and> (\<forall>j<c. \<not> cs ! j < s))
      \<or> (c = length cs \<and> cs' = cs @ [0] \<and> (\<forall>j<length cs. \<not> cs ! j < s))"
    using getAvailableColour_spec [of s cs c cs'] by blast
  have 2: "colourInv (initialLayout vs)" by (rule colourInv_initial)
  have 3: "colourInv st \<longrightarrow> colourInv (determinePath startAt st)"
    by (simp add: colourInv_determinePath)
  have 4: "colourInv st \<and> getAvailableColour s (availableColors st) = (c, colors)
        \<and> b < length (branchHeap st) \<and> b_colorIndex (branchHeap st ! b) = c
        \<longrightarrow> b_end (branchHeap st ! b) < s"
    using colour_reuse [of st s c colors b] by blast
  have 5: "availableColors (normalPath startAt st)
        ! b_colorIndex (branchHeap (normalPath startAt st) ! length (branchHeap st))
      = b_end (branchHeap (normalPath startAt st) ! length (branchHeap st))"
    by (rule normalPath_site)
  have 6: "mainLoop fuel 0 (initialLayout vs) = Some st'
        \<longrightarrow> colourInv st' \<and> completionSweep st' = st'"
  proof
    assume run: "mainLoop fuel 0 (initialLayout vs) = Some st'"
    from mainLoop_result [OF run] have "allBound st'" by simp
    then have "completionSweep st' = st'" by (rule completionSweep_allBound)
    moreover have "colourInv st'"
      using run colourInv_initial by (rule mainLoop_colourInv)
    ultimately show "colourInv st' \<and> completionSweep st' = st'" by simp
  qed
  have 7: "slotInv (initialLayout vs)" by (rule slotInv_initial)
  have 8: "slotInv st \<longrightarrow> slotInv (determinePath startAt st)"
    by (simp add: slotInv_determinePath)
  have 9: "mainLoop fuel 0 (initialLayout vs) = Some st' \<longrightarrow> slotInv st'"
    using mainLoop_slotInv [of fuel 0 "initialLayout vs" st'] slotInv_initial [of vs]
    by blast
  from 1 2 3 4 5 6 7 8 9 show ?thesis by (intro conjI) assumption+
qed

text \<open>The claim on the chain of three commits.\<close>

theorem colour_slots_witness:
  "colourInv chainStep \<and> slotInv chainStep
   \<and> getAvailableColour 3 (availableColors chainStep) = (0, [2])
   \<and> b_end (branchHeap chainStep ! 0) < 3
   \<and> mainLoop 20 0 (initialLayout chainVertices) = Some chainResult
   \<and> slotInv chainResult
   \<and> completionSweep chainResult = chainResult"
proof -
  have a: "colourInv chainStep \<and> slotInv chainStep"
    using colour_slots [where st = "initialLayout chainVertices" and vs = chainVertices
        and startAt = 0 and s = 0 and cs = "[]" and c = 0 and cs' = "[0]" and colors = "[]"
        and b = 0 and fuel = 0 and st' = chainResult]
    by (simp add: chain_eval(5))
  have b: "b_end (branchHeap chainStep ! 0) < 3 \<and> completionSweep chainResult = chainResult
      \<and> slotInv chainResult"
    using colour_slots [where st = chainStep and vs = chainVertices
        and startAt = 0 and s = 3 and cs = "[2]" and c = 0 and cs' = "[2]" and colors = "[2]"
        and b = 0 and fuel = 20 and st' = chainResult] a chain_eval(1-4)
    by simp
  from a b chain_eval(1,4) show ?thesis by simp
qed



end
